theory Spec2Isabelle
  imports Complex_Main "HOL-Library.Word" "HOL-Library.Multiset" "HOL-Library.Sublist"
begin

unbundle bit_operations_syntax

section \<open>Data model of \<^verbatim>\<open>utilitypar.hpp\<close>\<close>

text \<open>
  \<^verbatim>\<open>size_t\<close> is the 64-bit unsigned integer of the target, a byte is \<^verbatim>\<open>unsigned char\<close>.
  File names are \<^verbatim>\<open>std::string\<close>s.
\<close>

type_synonym size_t = "64 word"
type_synonym byte = "8 word"

text \<open>\<^verbatim>\<open>struct DataBlock\<close> (lines 13-17).\<close>

record DataBlock =
  originalSize :: size_t
  compressedSize :: size_t
  blockIndex :: size_t

text \<open>
  What the C++ leaves undefined or aborts on is a value of its own, so that no theorem
  about a returned \<^verbatim>\<open>bool\<close> silently covers it: an integer division by zero, a signed
  overflow of \<^verbatim>\<open>int\<close>, an access outside the mapped buffer handed to the function, and
  the \<^verbatim>\<open>std::out_of_range\<close> exception of \<^verbatim>\<open>std::string::substr\<close>.
\<close>

datatype fault = DivisionByZero | SignedOverflow | OutOfBounds | OutOfRange

text \<open>
  \<^verbatim>\<open>config.hpp\<close> is not part of the sources at hand; the three values of it that
  \<^verbatim>\<open>utilitypar.hpp\<close> reads are parameters of the model.
\<close>

record config =
  BIG_FILE_SIZE :: size_t
  SUFFIX :: string
  REMOVE_ORIGIN :: bool

text \<open>
  The collaborators outside the two source files, also parameters: the codec
  (\<^verbatim>\<open>compressBound\<close>, \<^verbatim>\<open>compress\<close>, \<^verbatim>\<open>uncompress\<close> of miniz), the OpenMP runtime
  (\<^verbatim>\<open>omp_get_max_threads()\<close> and the order in which it runs the tasks of a taskloop of
  \<open>n\<close> iterations), and the file system's answer when an output file is opened
  (\<^verbatim>\<open>std::ofstream\<close>) or allocated (\<^verbatim>\<open>allocateFile\<close> of \<^verbatim>\<open>utility.hpp\<close>).

  \<open>compress src cap\<close> is the call \<^verbatim>\<open>compress(dst, &cap, src, len)\<close> on the \<open>len\<close> source bytes
  \<open>src\<close> with room for \<open>cap\<close> bytes: \<open>Some out\<close> is \<^verbatim>\<open>Z_OK\<close> with the bytes written (their
  number is the new value of \<^verbatim>\<open>cap\<close>), \<open>None\<close> any other return code. \<open>uncompress\<close> likewise.
\<close>

record env =
  compressBound :: "size_t \<Rightarrow> size_t"
  compress :: "byte list \<Rightarrow> size_t \<Rightarrow> byte list option"
  uncompress :: "byte list \<Rightarrow> size_t \<Rightarrow> byte list option"
  omp_get_max_threads :: int
  taskloop_order :: "nat \<Rightarrow> nat list"
  open_ok :: "string \<Rightarrow> bool"
  allocate_ok :: "string \<Rightarrow> size_t \<Rightarrow> bool"

subsection \<open>Native representation of the header fields\<close>

text \<open>
  The archive holds the raw bytes of a \<^verbatim>\<open>size_t\<close> and of a \<^verbatim>\<open>DataBlock\<close>
  (\<^verbatim>\<open>reinterpret_cast<const char*>\<close>, lines 94, 101, 185, 189, 221, 227, 255): eight bytes
  for a \<^verbatim>\<open>size_t\<close>, least significant first on the little-endian targets the program
  builds for, and three such fields without padding for a \<^verbatim>\<open>DataBlock\<close>.
\<close>

definition encode_size_t :: "size_t \<Rightarrow> byte list" where
  "encode_size_t w = map (\<lambda>k. ucast (drop_bit (8 * k) w)) [0..<8]"

definition decode_size_t :: "byte list \<Rightarrow> size_t" where
  "decode_size_t bs = foldr (\<lambda>b acc. ucast b + 256 * acc) (take 8 bs) 0"

definition encode_DataBlock :: "DataBlock \<Rightarrow> byte list" where
  "encode_DataBlock b =
     encode_size_t (originalSize b) @ encode_size_t (compressedSize b) @ encode_size_t (blockIndex b)"

definition decode_DataBlock :: "byte list \<Rightarrow> DataBlock" where
  "decode_DataBlock bs =
     \<lparr>originalSize = decode_size_t (take 8 bs),
      compressedSize = decode_size_t (take 8 (drop 8 bs)),
      blockIndex = decode_size_t (take 8 (drop 16 bs))\<rparr>"

text \<open>
  Reading \<open>n\<close> bytes at offset \<open>p\<close> of a mapped buffer. A range that leaves the buffer is
  undefined behaviour in the C++; the model answers \<open>None\<close> and its callers turn that
  into \<open>OutOfBounds\<close>.
\<close>

definition read_bytes :: "byte list \<Rightarrow> nat \<Rightarrow> nat \<Rightarrow> byte list option" where
  "read_bytes mem p n = (if p + n \<le> length mem then Some (take n (drop p mem)) else None)"

section \<open>Compression\<close>

text \<open>
  \<^verbatim>\<open>compressBlock\<close> (lines 28-36): the codec is called on the \<open>inSize\<close> bytes at \<open>inPtr\<close>;
  \<open>Inr None\<close> is the return value \<^verbatim>\<open>false\<close>, \<open>Inr (Some out)\<close> is \<^verbatim>\<open>true\<close> with the output
  buffer's contents, \<^verbatim>\<open>cmp_len\<close> being their number.
\<close>

definition compressBlock :: "env \<Rightarrow> byte list \<Rightarrow> nat \<Rightarrow> size_t \<Rightarrow> size_t
    \<Rightarrow> fault + byte list option" where
  "compressBlock ev mem inPtr inSize cmp_len =
     (case read_bytes mem inPtr (unat inSize) of
        None \<Rightarrow> Inl OutOfBounds
      | Some src \<Rightarrow> Inr (compress ev src cmp_len))"

text \<open>The three shared variables of the taskloop (lines 120-123).\<close>

record comp_state =
  blockInfos :: "DataBlock list"
  compressedBlocks :: "byte list list"
  compressionSuccess :: bool

text \<open>Lines 113-117: the number of blocks and the block size of the multi-block branch.\<close>

definition plan_numBlocks :: "size_t \<Rightarrow> int \<Rightarrow> size_t \<Rightarrow> size_t" where
  "plan_numBlocks big num_threads sz =
     min ((sz + big - 1) div big) (word_of_int (num_threads * 2))"

definition plan_blockSize :: "size_t \<Rightarrow> size_t \<Rightarrow> size_t" where
  "plan_blockSize sz numBlocks = (sz + numBlocks - 1) div numBlocks"

text \<open>Lines 135 and 138: where block \<open>i\<close> starts and how long it is.\<close>

definition block_offset :: "size_t \<Rightarrow> size_t \<Rightarrow> size_t" where
  "block_offset blockSize i = i * blockSize"

definition currentBlockSize :: "size_t \<Rightarrow> size_t \<Rightarrow> size_t \<Rightarrow> size_t \<Rightarrow> size_t" where
  "currentBlockSize sz numBlocks blockSize i =
     (if i < numBlocks - 1 then blockSize else sz - block_offset blockSize i)"

text \<open>
  One iteration of the taskloop (lines 133-167). After a failed codec call the contents
  of \<^verbatim>\<open>compressedBlocks[i]\<close> are whatever the codec left in the \<^verbatim>\<open>cmp_bound\<close> bytes; nothing
  reads them afterwards, and the model keeps the vector as it was.
\<close>

definition compress_task :: "env \<Rightarrow> byte list \<Rightarrow> size_t \<Rightarrow> size_t \<Rightarrow> size_t \<Rightarrow> size_t
    \<Rightarrow> comp_state \<Rightarrow> fault + comp_state" where
  "compress_task ev ptr sz numBlocks blockSize i st =
     (let offset = block_offset blockSize i;
          cur = currentBlockSize sz numBlocks blockSize i;
          infos = (blockInfos st)[unat i := (blockInfos st ! unat i)\<lparr>originalSize := cur, blockIndex := i\<rparr>];
          cmp_bound = compressBound ev cur
      in case compressBlock ev ptr (unat offset) cur cmp_bound of
           Inl f \<Rightarrow> Inl f
         | Inr None \<Rightarrow> Inr (st\<lparr>blockInfos := infos, compressionSuccess := False\<rparr>)
         | Inr (Some out) \<Rightarrow>
             Inr (st\<lparr>blockInfos := infos[unat i := (infos ! unat i)\<lparr>compressedSize := word_of_nat (length out)\<rparr>],
                     compressedBlocks := (compressedBlocks st)[unat i := out]\<rparr>))"

text \<open>
  \<^verbatim>\<open>#pragma omp taskloop ... grainsize(1)\<close>: one task per iteration, run to completion in
  an order the runtime chooses; the tasks write disjoint elements of the shared vectors
  and the flag inside a critical section, so a run is a sequence of whole iterations.
  No iteration is skipped when an earlier one has cleared the flag.
\<close>

fun taskloop :: "(size_t \<Rightarrow> 's \<Rightarrow> fault + 's) \<Rightarrow> nat list \<Rightarrow> 's \<Rightarrow> fault + 's" where
  "taskloop body [] st = Inr st"
| "taskloop body (k # ks) st =
     (case body (word_of_nat k) st of
        Inl f \<Rightarrow> Inl f
      | Inr st' \<Rightarrow> taskloop body ks st')"

text \<open>
  What a call of \<^verbatim>\<open>compressDataParallel\<close> leaves behind: the returned \<^verbatim>\<open>bool\<close>, the file
  written (name and contents) if one was, and the file unlinked if one was.
\<close>

record effect =
  returned :: bool
  written :: "(string \<times> byte list) option"
  unlinked :: "string option"

definition failed :: effect where
  "failed = \<lparr>returned = False, written = None, unlinked = None\<rparr>"

text \<open>The bytes of the archive in the order of the writes (lines 185-196, and 94-104).\<close>

definition archive_bytes :: "size_t \<Rightarrow> DataBlock list \<Rightarrow> byte list list \<Rightarrow> byte list" where
  "archive_bytes numBlocks infos blocks =
     encode_size_t numBlocks
     @ concat (map (\<lambda>i. encode_DataBlock (infos ! i)) [0..<unat numBlocks])
     @ concat (map (\<lambda>i. take (unat (compressedSize (infos ! i))) (blocks ! i)) [0..<unat numBlocks])"

text \<open>\<^verbatim>\<open>compressDataParallel\<close> (lines 69-207).\<close>

definition compressDataParallel :: "config \<Rightarrow> env \<Rightarrow> byte list \<Rightarrow> size_t \<Rightarrow> string
    \<Rightarrow> fault + effect" where
  "compressDataParallel cfg ev ptr sz fname =
     (if sz \<le> BIG_FILE_SIZE cfg then
        (let inSize = sz; cmp_len = compressBound ev inSize
         in case compressBlock ev ptr 0 inSize cmp_len of
              Inl f \<Rightarrow> Inl f
            | Inr None \<Rightarrow> Inr failed
            | Inr (Some ptrOut) \<Rightarrow>
                (let outfile = fname @ SUFFIX cfg
                 in if \<not> open_ok ev outfile then Inr failed
                    else
                      (let blockInfo = \<lparr>originalSize = inSize,
                                         compressedSize = word_of_nat (length ptrOut),
                                         blockIndex = 0\<rparr>
                       in Inr \<lparr>returned = True,
                               written = Some (outfile, archive_bytes 1 [blockInfo] [ptrOut]),
                               unlinked = (if REMOVE_ORIGIN cfg then Some fname else None)\<rparr>)))
      else
        (let num_threads = omp_get_max_threads ev
         in if BIG_FILE_SIZE cfg = 0 then Inl DivisionByZero
            else if num_threads * 2 < - (2 ^ 31) \<or> 2 ^ 31 \<le> num_threads * 2 then Inl SignedOverflow
            else
              (let numBlocks = plan_numBlocks (BIG_FILE_SIZE cfg) num_threads sz
               in if numBlocks = 0 then Inl DivisionByZero
                  else
                    (let blockSize = plan_blockSize sz numBlocks;
                         st0 = \<lparr>blockInfos = replicate (unat numBlocks)
                                   \<lparr>originalSize = 0, compressedSize = 0, blockIndex = 0\<rparr>,
                                 compressedBlocks = replicate (unat numBlocks) [],
                                 compressionSuccess = True\<rparr>
                     in case taskloop (compress_task ev ptr sz numBlocks blockSize)
                               (taskloop_order ev (unat numBlocks)) st0 of
                          Inl f \<Rightarrow> Inl f
                        | Inr st \<Rightarrow>
                            if \<not> compressionSuccess st then Inr failed
                            else
                              (let outfile = fname @ SUFFIX cfg
                               in if \<not> open_ok ev outfile then Inr failed
                                  else Inr \<lparr>returned = True,
                                            written = Some (outfile,
                                              archive_bytes numBlocks (blockInfos st) (compressedBlocks st)),
                                            unlinked = (if REMOVE_ORIGIN cfg then Some fname else None)\<rparr>)))))"

subsection \<open>The plan of a call and the blocks it yields\<close>

text \<open>
  Names for what one call of \<^verbatim>\<open>compressDataParallel\<close> computes, used to state its
  properties. The block count the call writes into the header (line 93 or lines
  113-115) and the block size (line 117):
\<close>

definition archive_numBlocks :: "config \<Rightarrow> env \<Rightarrow> size_t \<Rightarrow> size_t" where
  "archive_numBlocks cfg ev sz =
     (if sz \<le> BIG_FILE_SIZE cfg then 1
      else plan_numBlocks (BIG_FILE_SIZE cfg) (omp_get_max_threads ev) sz)"

definition archive_blockSize :: "config \<Rightarrow> env \<Rightarrow> size_t \<Rightarrow> size_t" where
  "archive_blockSize cfg ev sz = plan_blockSize sz (archive_numBlocks cfg ev sz)"

text \<open>
  The multi-block branch divides by the threshold and by the block count and doubles an
  \<^verbatim>\<open>int\<close>; the plan is defined when none of these is undefined in the C++.
\<close>

definition plan_defined :: "config \<Rightarrow> env \<Rightarrow> size_t \<Rightarrow> bool" where
  "plan_defined cfg ev sz =
     (sz \<le> BIG_FILE_SIZE cfg
      \<or> (BIG_FILE_SIZE cfg \<noteq> 0
         \<and> - (2 ^ 31) \<le> omp_get_max_threads ev * 2 \<and> omp_get_max_threads ev * 2 < 2 ^ 31
         \<and> archive_numBlocks cfg ev sz \<noteq> 0))"

text \<open>
  The source bytes of block \<open>k\<close> (\<^verbatim>\<open>ptr + offset\<close>, \<^verbatim>\<open>currentBlockSize\<close>; lines 135-138,
  150), what the codec answers on them (lines 145-151), and the descriptor the task
  leaves in \<^verbatim>\<open>blockInfos[k]\<close>, in a vector of zeroed descriptors (lines 141-142, 163) or,
  for \<open>task_info\<close>, over any earlier contents.
\<close>

definition block_source :: "byte list \<Rightarrow> size_t \<Rightarrow> size_t \<Rightarrow> size_t \<Rightarrow> nat \<Rightarrow> byte list option" where
  "block_source ptr sz numBlocks blockSize k =
     read_bytes ptr (unat (block_offset blockSize (word_of_nat k)))
       (unat (currentBlockSize sz numBlocks blockSize (word_of_nat k)))"

definition block_output :: "env \<Rightarrow> byte list \<Rightarrow> size_t \<Rightarrow> size_t \<Rightarrow> size_t \<Rightarrow> nat \<Rightarrow> byte list option" where
  "block_output ev ptr sz numBlocks blockSize k =
     (case block_source ptr sz numBlocks blockSize k of
        None \<Rightarrow> None
      | Some src \<Rightarrow>
          compress ev src (compressBound ev (currentBlockSize sz numBlocks blockSize (word_of_nat k))))"

definition task_info :: "env \<Rightarrow> byte list \<Rightarrow> size_t \<Rightarrow> size_t \<Rightarrow> size_t \<Rightarrow> nat \<Rightarrow> DataBlock \<Rightarrow> DataBlock" where
  "task_info ev ptr sz numBlocks blockSize k b =
     b\<lparr>originalSize := currentBlockSize sz numBlocks blockSize (word_of_nat k),
       blockIndex := word_of_nat k,
       compressedSize := (case block_output ev ptr sz numBlocks blockSize k of
                          None \<Rightarrow> compressedSize b | Some out \<Rightarrow> word_of_nat (length out))\<rparr>"

definition block_descriptor :: "env \<Rightarrow> byte list \<Rightarrow> size_t \<Rightarrow> size_t \<Rightarrow> size_t \<Rightarrow> nat \<Rightarrow> DataBlock" where
  "block_descriptor ev ptr sz numBlocks blockSize k =
     \<lparr>originalSize = currentBlockSize sz numBlocks blockSize (word_of_nat k),
      compressedSize = (case block_output ev ptr sz numBlocks blockSize k of
                          None \<Rightarrow> 0 | Some out \<Rightarrow> word_of_nat (length out)),
      blockIndex = word_of_nat k\<rparr>"

text \<open>The archive of a call all of whose codec calls succeed, in block order.\<close>

definition expected_archive :: "config \<Rightarrow> env \<Rightarrow> byte list \<Rightarrow> size_t \<Rightarrow> byte list" where
  "expected_archive cfg ev ptr sz =
     (let n = archive_numBlocks cfg ev sz; bs = archive_blockSize cfg ev sz
      in archive_bytes n (map (block_descriptor ev ptr sz n bs) [0..<unat n])
           (map (\<lambda>k. the (block_output ev ptr sz n bs k)) [0..<unat n]))"

section \<open>Decompression\<close>

text \<open>
  \<^verbatim>\<open>std::string::substr(pos, n)\<close> of the C++ standard library: the exception
  \<^verbatim>\<open>std::out_of_range\<close> when \<open>pos\<close> lies behind the end of the string, and otherwise the
  characters from \<open>pos\<close> on, \<open>n\<close> of them or as many as there are.
\<close>

definition substr :: "string \<Rightarrow> size_t \<Rightarrow> size_t \<Rightarrow> fault + string" where
  "substr s pos n =
     (if length s < unat pos then Inl OutOfRange
      else Inr (take (min (unat n) (length s - unat pos)) (drop (unat pos) s)))"

text \<open>
  Lines 235 and 267: \<^verbatim>\<open>fname.substr(0, fname.size() - strlen(SUFFIX))\<close>, the subtraction
  being one of \<^verbatim>\<open>size_t\<close>.
\<close>

definition output_name :: "config \<Rightarrow> string \<Rightarrow> fault + string" where
  "output_name cfg fname =
     substr fname 0 (word_of_nat (length fname) - word_of_nat (length (SUFFIX cfg)))"

text \<open>Storing bytes at offset \<open>p\<close> of a mapped output buffer.\<close>

definition write_bytes :: "byte list \<Rightarrow> nat \<Rightarrow> byte list \<Rightarrow> byte list" where
  "write_bytes mem p bs = take p mem @ bs @ drop (p + length bs) mem"

text \<open>
  \<^verbatim>\<open>decompressBlock\<close> (lines 47-55) on the \<open>compressedSize\<close> bytes at \<open>ptr\<close> of the archive,
  with the output written at \<open>outPtr\<close> of the output mapping \<open>out\<close>: \<open>Inr None\<close> is the
  return value \<^verbatim>\<open>false\<close>, \<open>Inr (Some out')\<close> is \<^verbatim>\<open>true\<close> with the mapping's new contents.
  After a failed codec call the bytes of the target range are whatever the codec left
  there; the model keeps the mapping as it was.
\<close>

definition decompressBlock :: "env \<Rightarrow> byte list \<Rightarrow> nat \<Rightarrow> size_t \<Rightarrow> byte list \<Rightarrow> nat \<Rightarrow> size_t
    \<Rightarrow> fault + byte list option" where
  "decompressBlock ev mem ptr compressedSize' out outPtr decompressedSize =
     (case read_bytes mem ptr (unat compressedSize') of
        None \<Rightarrow> Inl OutOfBounds
      | Some src \<Rightarrow>
          (case uncompress ev src decompressedSize of
             None \<Rightarrow> Inr None
           | Some d \<Rightarrow>
               if outPtr + length d \<le> length out then Inr (Some (write_bytes out outPtr d))
               else Inl OutOfBounds))"

text \<open>Lines 254-257: the descriptor table, one \<^verbatim>\<open>DataBlock\<close> of 24 bytes after the other.\<close>

primrec read_blockInfos :: "byte list \<Rightarrow> nat \<Rightarrow> nat \<Rightarrow> DataBlock list option" where
  "read_blockInfos mem ptr 0 = Some []"
| "read_blockInfos mem ptr (Suc n) =
     (case read_bytes mem ptr 24 of
        None \<Rightarrow> None
      | Some bs \<Rightarrow>
          (case read_blockInfos mem (ptr + 24) n of
             None \<Rightarrow> None
           | Some infos \<Rightarrow> Some (decode_DataBlock bs # infos)))"

text \<open>Lines 260-263 and 291-294: the sums of \<^verbatim>\<open>originalSize\<close>, in \<^verbatim>\<open>size_t\<close>.\<close>

definition sum_originalSize :: "DataBlock list \<Rightarrow> size_t" where
  "sum_originalSize infos = foldl (\<lambda>total block. total + originalSize block) 0 infos"

text \<open>
  Lines 273-279: the start of each compressed block, the pointer advancing by
  \<^verbatim>\<open>compressedSize\<close> after every block but the last.
\<close>

fun block_pointers :: "nat \<Rightarrow> DataBlock list \<Rightarrow> nat list" where
  "block_pointers ptr [] = []"
| "block_pointers ptr (b # bs) = ptr # block_pointers (ptr + unat (compressedSize b)) bs"

text \<open>The shared variables of the decompression taskloop (lines 266, 281).\<close>

record decomp_state =
  decompressed_data :: "byte list"
  decompressionSuccess :: bool

text \<open>One iteration of the taskloop (lines 289-308).\<close>

definition decompress_task :: "env \<Rightarrow> byte list \<Rightarrow> DataBlock list \<Rightarrow> nat list \<Rightarrow> size_t
    \<Rightarrow> decomp_state \<Rightarrow> fault + decomp_state" where
  "decompress_task ev mem infos ptrs i st =
     (let outputOffset = sum_originalSize (take (unat i) infos);
          currentDecompressedSize = originalSize (infos ! unat i)
      in case decompressBlock ev mem (ptrs ! unat i) (compressedSize (infos ! unat i))
                (decompressed_data st) (unat outputOffset) currentDecompressedSize of
           Inl f \<Rightarrow> Inl f
         | Inr None \<Rightarrow> Inr (st\<lparr>decompressionSuccess := False\<rparr>)
         | Inr (Some out') \<Rightarrow> Inr (st\<lparr>decompressed_data := out'\<rparr>))"

text \<open>
  \<^verbatim>\<open>decompressDataParallel\<close> (lines 219-326). \<^verbatim>\<open>allocateFile\<close> and \<^verbatim>\<open>unmapFile\<close> are
  declared in \<^verbatim>\<open>utility.hpp\<close>, which is not at hand: a successful \<^verbatim>\<open>allocateFile\<close> is
  taken to create the output file with the requested size, zero-filled and mapped, and
  \<^verbatim>\<open>unmapFile\<close> to flush the mapping to it. \<open>written\<close> is that file, from the moment it is
  allocated.
\<close>

definition decompressDataParallel :: "config \<Rightarrow> env \<Rightarrow> byte list \<Rightarrow> string \<Rightarrow> fault + effect" where
  "decompressDataParallel cfg ev mem fname =
     (case read_bytes mem 0 8 of
        None \<Rightarrow> Inl OutOfBounds
      | Some header \<Rightarrow>
          (let numBlocks = decode_size_t header; ptr = 8
           in if numBlocks = 1 then
                (case read_bytes mem ptr 24 of
                   None \<Rightarrow> Inl OutOfBounds
                 | Some bs \<Rightarrow>
                     (let blockInfo = decode_DataBlock bs;
                          ptr = ptr + 24;
                          decompressedSize = originalSize blockInfo
                      in case output_name cfg fname of
                           Inl f \<Rightarrow> Inl f
                         | Inr outfile \<Rightarrow>
                             if \<not> allocate_ok ev outfile decompressedSize then Inr failed
                             else
                               (let decompressed = replicate (unat decompressedSize) 0
                                in case decompressBlock ev mem ptr (compressedSize blockInfo)
                                          decompressed 0 decompressedSize of
                                     Inl f \<Rightarrow> Inl f
                                   | Inr None \<Rightarrow>
                                       Inr \<lparr>returned = False,
                                            written = Some (outfile, decompressed),
                                            unlinked = None\<rparr>
                                   | Inr (Some out') \<Rightarrow>
                                       Inr \<lparr>returned = True,
                                            written = Some (outfile, out'),
                                            unlinked = (if REMOVE_ORIGIN cfg then Some fname else None)\<rparr>)))
              else
                (case read_blockInfos mem ptr (unat numBlocks) of
                   None \<Rightarrow> Inl OutOfBounds
                 | Some infos \<Rightarrow>
                     (let ptr = ptr + 24 * unat numBlocks;
                          totalSize = sum_originalSize infos
                      in case output_name cfg fname of
                           Inl f \<Rightarrow> Inl f
                         | Inr outfile \<Rightarrow>
                             if \<not> allocate_ok ev outfile totalSize then Inr failed
                             else
                               (let st0 = \<lparr>decompressed_data = replicate (unat totalSize) 0,
                                           decompressionSuccess = True\<rparr>
                                in case taskloop (decompress_task ev mem infos (block_pointers ptr infos))
                                          (taskloop_order ev (unat numBlocks)) st0 of
                                     Inl f \<Rightarrow> Inl f
                                   | Inr st \<Rightarrow>
                                       if \<not> decompressionSuccess st then
                                         Inr \<lparr>returned = False,
                                              written = Some (outfile, decompressed_data st),
                                              unlinked = None\<rparr>
                                       else
                                         Inr \<lparr>returned = True,
                                              written = Some (outfile, decompressed_data st),
                                              unlinked = (if REMOVE_ORIGIN cfg then Some fname else None)\<rparr>)))))"

section \<open>File dispatcher and directory walker\<close>

text \<open>
  \<^verbatim>\<open>doParallelWork\<close> (lines 339-352). \<^verbatim>\<open>mapFile\<close> belongs to \<^verbatim>\<open>utility.hpp\<close>; its
  outcome is the parameter \<open>mapped\<close>: \<open>None\<close> when it fails, the bytes of the file
  otherwise.
\<close>

definition doParallelWork :: "config \<Rightarrow> env \<Rightarrow> byte list option \<Rightarrow> string \<Rightarrow> size_t \<Rightarrow> bool
    \<Rightarrow> fault + effect" where
  "doParallelWork cfg ev mapped fname sz comp' =
     (case mapped of
        None \<Rightarrow> Inr failed
      | Some ptr \<Rightarrow>
          if comp' then compressDataParallel cfg ev ptr sz fname
          else decompressDataParallel cfg ev ptr fname)"

text \<open>
  Modelled from the spec: \<^verbatim>\<open>isdot\<close> and \<^verbatim>\<open>discardIt\<close> of \<^verbatim>\<open>utility.hpp\<close>, which is not at
  hand. The spec's words: subdirectory entries are walked "excluding self/parent
  markers"; "in compress mode, skip files that already carry the archive suffix; in
  decompress mode, skip files lacking it".
\<close>

definition isdot :: "string \<Rightarrow> bool" where
  "isdot dname = (dname = ''.'' \<or> dname = ''..'')"

definition has_suffix :: "config \<Rightarrow> string \<Rightarrow> bool" where
  "has_suffix cfg fname =
     (length (SUFFIX cfg) \<le> length fname
      \<and> drop (length fname - length (SUFFIX cfg)) fname = SUFFIX cfg)"

definition discardIt :: "config \<Rightarrow> string \<Rightarrow> bool \<Rightarrow> bool" where
  "discardIt cfg fname comp' = (if comp' then has_suffix cfg fname else \<not> has_suffix cfg fname)"

text \<open>
  The part of the file system a walk sees. An entry of a directory is what \<^verbatim>\<open>readdir\<close>
  returns and what \<^verbatim>\<open>stat\<close> says about it: whether \<^verbatim>\<open>stat\<close> succeeds, and then a regular
  file with its \<^verbatim>\<open>st_size\<close> or a directory. A directory records whether \<^verbatim>\<open>chdir\<close> into it
  and \<^verbatim>\<open>opendir(".")\<close> succeed, the entries \<^verbatim>\<open>readdir\<close> delivers, whether \<^verbatim>\<open>readdir\<close> ends
  without an error (\<^verbatim>\<open>errno == 0\<close>), and whether \<^verbatim>\<open>chdir("..")\<close> out of it succeeds.
\<close>

datatype entry =
    Reg string bool size_t
  | Sub string bool directory
and directory =
    Directory (chdir_ok: bool) (opendir_ok: bool) (entries: "entry list")
              (readdir_ok: bool) (chdir_up_ok: bool)

text \<open>
  The process state a walk changes. \<open>cwd\<close> holds the arguments of the \<^verbatim>\<open>chdir\<close> calls in
  effect, in the order they were made: \<^verbatim>\<open>chdir(dname)\<close> adds \<open>dname\<close> as it is written, and the
  \<^verbatim>\<open>chdir("..")\<close> after the walk of a subdirectory takes that subdirectory's name back.
  It is a record of calls, not yet a directory: \<open>working_directory\<close> below gives the
  directory they lead to. \<open>dispatched\<close> holds the calls of \<^verbatim>\<open>doParallelWork\<close> made so far,
  each with the value of \<open>cwd\<close> it was made under.
\<close>

record walk_state =
  cwd :: "string list"
  dispatched :: "(string list \<times> string \<times> size_t) list"

text \<open>
  Lines 439-448: the second pass over the collected files. Every file is handed to
  \<^verbatim>\<open>doParallelWork\<close>, whose answer is the parameter \<open>work\<close> (the value of \<open>cwd\<close>, name,
  size, mode); the loop has no early exit. The iterations are independent; the model runs them
  in the order of the vector.
\<close>

fun second_pass :: "(string list \<Rightarrow> string \<Rightarrow> size_t \<Rightarrow> bool \<Rightarrow> bool) \<Rightarrow> bool
    \<Rightarrow> (string \<times> size_t) list \<Rightarrow> bool \<Rightarrow> walk_state \<Rightarrow> bool \<times> walk_state" where
  "second_pass work comp' [] success st = (success, st)"
| "second_pass work comp' ((fname, sz) # files) success st =
     second_pass work comp' files
       (if \<not> work (cwd st) fname sz comp' then False else success)
       (st\<lparr>dispatched := dispatched st @ [(cwd st, fname, sz)]\<rparr>)"

text \<open>
  \<^verbatim>\<open>walkDirParallel\<close> (lines 364-449) and its \<^verbatim>\<open>while\<close> loop over the entries (lines
  389-428), which answers \<open>None\<close> where the C++ returns \<^verbatim>\<open>false\<close> from inside the loop and
  the collected \<^verbatim>\<open>files\<close> otherwise.
\<close>

fun walkDirParallel :: "config \<Rightarrow> (string list \<Rightarrow> string \<Rightarrow> size_t \<Rightarrow> bool \<Rightarrow> bool) \<Rightarrow> bool
    \<Rightarrow> string \<Rightarrow> directory \<Rightarrow> walk_state \<Rightarrow> bool \<times> walk_state"
and first_pass :: "config \<Rightarrow> (string list \<Rightarrow> string \<Rightarrow> size_t \<Rightarrow> bool \<Rightarrow> bool) \<Rightarrow> bool
    \<Rightarrow> entry list \<Rightarrow> (string \<times> size_t) list \<Rightarrow> walk_state
    \<Rightarrow> (string \<times> size_t) list option \<times> walk_state" where
  "walkDirParallel cfg work comp' dname (Directory c_ok o_ok es r_ok up_ok) st =
     (if \<not> c_ok then (False, st)
      else
        (let st1 = st\<lparr>cwd := cwd st @ [dname]\<rparr>
         in if \<not> o_ok then (False, st1)
            else
              (case first_pass cfg work comp' es [] st1 of
                 (None, st2) \<Rightarrow> (False, st2)
               | (Some files, st2) \<Rightarrow>
                   if \<not> r_ok then (False, st2)
                   else second_pass work comp' files True st2)))"
| "first_pass cfg work comp' [] files st = (Some files, st)"
| "first_pass cfg work comp' (Reg d_name stat_ok st_size # es) files st =
     (if \<not> stat_ok then (None, st)
      else if discardIt cfg d_name comp' then first_pass cfg work comp' es files st
      else first_pass cfg work comp' es (files @ [(d_name, st_size)]) st)"
| "first_pass cfg work comp' (Sub d_name stat_ok d # es) files st =
     (if \<not> stat_ok then (None, st)
      else if isdot d_name then first_pass cfg work comp' es files st
      else
        (case walkDirParallel cfg work comp' d_name d st of
           (True, st') \<Rightarrow>
             if chdir_up_ok d then first_pass cfg work comp' es files (st'\<lparr>cwd := butlast (cwd st')\<rparr>)
             else (None, st')
         | (False, st') \<Rightarrow> (None, st')))"








subsection \<open>The blocks of an archive as the decompressor sees them\<close>

text \<open>
  Names for what one call of \<^verbatim>\<open>decompressDataParallel\<close> computes from the descriptor table
  \<open>infos\<close> it has read: the compressed bytes of block \<open>k\<close> (lines 273-279, 298), what the
  codec answers on them with room for \<^verbatim>\<open>originalSize\<close> bytes (lines 297-299), the offset
  of block \<open>k\<close> in the output (lines 291-294), and the part of an output buffer that
  belongs to block \<open>k\<close>.
\<close>

definition payload_source :: "byte list \<Rightarrow> DataBlock list \<Rightarrow> nat \<Rightarrow> byte list option" where
  "payload_source mem infos k =
     read_bytes mem (block_pointers (8 + 24 * length infos) infos ! k)
       (unat (compressedSize (infos ! k)))"

definition block_decoded :: "env \<Rightarrow> byte list \<Rightarrow> DataBlock list \<Rightarrow> nat \<Rightarrow> byte list option" where
  "block_decoded ev mem infos k =
     (case payload_source mem infos k of
        None \<Rightarrow> None
      | Some src \<Rightarrow> uncompress ev src (originalSize (infos ! k)))"

definition output_offset :: "DataBlock list \<Rightarrow> nat \<Rightarrow> nat" where
  "output_offset infos k = unat (sum_originalSize (take k infos))"

definition output_region :: "DataBlock list \<Rightarrow> nat \<Rightarrow> byte list \<Rightarrow> byte list" where
  "output_region infos k out = take (unat (originalSize (infos ! k))) (drop (output_offset infos k) out)"

section \<open>Concrete collaborators\<close>

text \<open>
  A codec that stores its input unchanged, refusing an output buffer that is too small,
  with every file operation succeeding; \<open>p\<close> is the answer of \<^verbatim>\<open>omp_get_max_threads()\<close> and
  \<open>ord\<close> the order in which the runtime runs the tasks. And a configuration with the
  suffix \<^verbatim>\<open>.zip\<close>, the threshold \<open>t\<close> and no removal of the input.
\<close>

definition stored_env :: "int \<Rightarrow> (nat \<Rightarrow> nat list) \<Rightarrow> env" where
  "stored_env p ord =
     \<lparr>compressBound = (\<lambda>n. n),
      compress = (\<lambda>src cap. if length src \<le> unat cap then Some src else None),
      uncompress = (\<lambda>src cap. if length src \<le> unat cap then Some src else None),
      omp_get_max_threads = p,
      taskloop_order = ord,
      open_ok = (\<lambda>_. True),
      allocate_ok = (\<lambda>_ _. True)\<rparr>"

definition sample_config :: "size_t \<Rightarrow> config" where
  "sample_config t = \<lparr>BIG_FILE_SIZE = t, SUFFIX = ''.zip'', REMOVE_ORIGIN = False\<rparr>"

text \<open>The ten bytes 1, ..., 10.\<close>

definition ten_bytes :: "byte list" where
  "ten_bytes = [1, 2, 3, 4, 5, 6, 7, 8, 9, 10]"

text \<open>A single-block archive holding the three bytes 7, 8, 9 as the stored codec writes them.\<close>

definition small_archive :: "byte list" where
  "small_archive =
     [1, 0, 0, 0, 0, 0, 0, 0,
      3, 0, 0, 0, 0, 0, 0, 0,  3, 0, 0, 0, 0, 0, 0, 0,  0, 0, 0, 0, 0, 0, 0, 0,
      7, 8, 9]"

text \<open>
  The archive of the ten bytes with threshold 4 and four threads under the stored codec:
  three blocks of 4, 4 and 2 bytes.
\<close>

definition sample_archive :: "byte list" where
  "sample_archive =
     [3, 0, 0, 0, 0, 0, 0, 0,
      4, 0, 0, 0, 0, 0, 0, 0,  4, 0, 0, 0, 0, 0, 0, 0,  0, 0, 0, 0, 0, 0, 0, 0,
      4, 0, 0, 0, 0, 0, 0, 0,  4, 0, 0, 0, 0, 0, 0, 0,  1, 0, 0, 0, 0, 0, 0, 0,
      2, 0, 0, 0, 0, 0, 0, 0,  2, 0, 0, 0, 0, 0, 0, 0,  2, 0, 0, 0, 0, 0, 0, 0,
      1, 2, 3, 4, 5, 6, 7, 8, 9, 10]"

text \<open>
  The stored codec behind a \<^verbatim>\<open>compressBound\<close> of three bytes: it fails on every block
  longer than that.
\<close>

definition tight_env :: "int \<Rightarrow> (nat \<Rightarrow> nat list) \<Rightarrow> env" where
  "tight_env p ord = (stored_env p ord)\<lparr>compressBound := (\<lambda>_. 3)\<rparr>"

text \<open>
  A directory \<^verbatim>\<open>d\<close> holding a file \<^verbatim>\<open>a\<close>, a subdirectory \<^verbatim>\<open>s\<close> that can be entered but not
  opened, and a file \<^verbatim>\<open>b\<close>; and the state of a process that has made no \<^verbatim>\<open>chdir\<close> call yet.
\<close>

definition unreadable_dir :: directory where
  "unreadable_dir = Directory True False [] True True"

definition sample_tree :: directory where
  "sample_tree =
     Directory True True [Reg ''a'' True 3, Sub ''s'' True unreadable_dir, Reg ''b'' True 1] True True"

definition start_state :: walk_state where
  "start_state = \<lparr>cwd = [], dispatched = []\<rparr>"




text \<open>
  An archive of two blocks whose first payload, two bytes long, does not fit the one
  byte its descriptor announces, so that the stored codec refuses it; and its
  descriptor table.
\<close>

definition broken_archive :: "byte list" where
  "broken_archive =
     [2, 0, 0, 0, 0, 0, 0, 0,
      1, 0, 0, 0, 0, 0, 0, 0,  2, 0, 0, 0, 0, 0, 0, 0,  0, 0, 0, 0, 0, 0, 0, 0,
      2, 0, 0, 0, 0, 0, 0, 0,  2, 0, 0, 0, 0, 0, 0, 0,  1, 0, 0, 0, 0, 0, 0, 0,
      7, 8, 9, 10]"

definition broken_infos :: "DataBlock list" where
  "broken_infos =
     [\<lparr>originalSize = 1, compressedSize = 2, blockIndex = 0\<rparr>,
      \<lparr>originalSize = 2, compressedSize = 2, blockIndex = 1\<rparr>]"

section \<open>The native representation is read back as written\<close>

lemma length_encode_size_t: "length (encode_size_t w) = 8"
  by (simp add: encode_size_t_def)

lemma unat_byte_of:
  "unat (ucast (drop_bit (8 * k) (w::size_t)) :: byte) = unat w div 256 ^ k mod 256"
proof -
  have "unat (ucast (drop_bit (8 * k) w) :: byte) = unat (drop_bit (8 * k) w) mod 256"
    by (simp add: unsigned_ucast_eq take_bit_eq_mod)
  also have "unat (drop_bit (8 * k) w) = unat w div 2 ^ (8 * k)"
    by (subst unat_drop_bit_eq) (rule drop_bit_eq_div)
  also have "(2::nat) ^ (8 * k) = 256 ^ k"
    by (simp add: power_mult)
  finally show ?thesis .
qed

lemma horner_digits:
  "foldr (\<lambda>b acc. unat b + 256 * acc)
     (map (\<lambda>k. (ucast (drop_bit (8 * k) (w::size_t)) :: byte)) [j..<j + m]) 0
   = unat w div 256 ^ j mod 256 ^ m"
proof (induction m arbitrary: j)
  case 0
  then show ?case by simp
next
  case (Suc m)
  define x where "x = unat w div 256 ^ j"
  have l: "[j..<j + Suc m] = j # [Suc j..<Suc j + m]"
    by (simp add: upt_rec)
  have d: "unat w div 256 ^ Suc j = x div 256"
    unfolding x_def by (simp only: power_Suc2 div_mult2_eq)
  have "foldr (\<lambda>b acc. unat b + 256 * acc)
     (map (\<lambda>k. (ucast (drop_bit (8 * k) w) :: byte)) [j..<j + Suc m]) 0
     = x mod 256 + 256 * (x div 256 mod 256 ^ m)"
    unfolding l using Suc.IH[of "Suc j"]
    by (simp only: list.map foldr.simps o_apply unat_byte_of d x_def)
  also have "\<dots> = x mod 256 ^ Suc m"
    by (simp only: power_Suc mod_mult2_eq add.commute)
  finally show ?case by (simp only: x_def)
qed

lemma foldr_word_of_nat:
  "foldr (\<lambda>b acc. ucast b + 256 * acc) (bs :: byte list) (0::size_t)
   = word_of_nat (foldr (\<lambda>b acc. unat b + 256 * acc) bs 0)"
  by (induction bs) simp_all

lemma decode_encode_size_t: "decode_size_t (encode_size_t w) = w"
proof -
  have "foldr (\<lambda>b acc. unat b + 256 * acc) (encode_size_t w) 0 = unat w div 256 ^ 0 mod 256 ^ 8"
    unfolding encode_size_t_def using horner_digits[of w 0 8] by simp
  moreover have "unat w < 256 ^ 8"
    using unsigned_less[of w] by simp
  ultimately show ?thesis
    by (simp add: decode_size_t_def length_encode_size_t foldr_word_of_nat)
qed

lemma decode_size_t_append: "decode_size_t (encode_size_t w @ rest) = w"
  using decode_encode_size_t[of w] by (simp add: decode_size_t_def length_encode_size_t)

lemma length_encode_DataBlock: "length (encode_DataBlock b) = 24"
  by (simp add: encode_DataBlock_def length_encode_size_t)

lemma decode_encode_DataBlock: "decode_DataBlock (encode_DataBlock b @ rest) = b"
  by (simp add: decode_DataBlock_def encode_DataBlock_def length_encode_size_t
      decode_encode_size_t decode_size_t_append)

section \<open>The name of the decompressed file\<close>

lemma output_name_eq:
  assumes "length fname < 2 ^ 64" and "length (SUFFIX cfg) < 2 ^ 64"
  shows "output_name cfg fname =
           Inr (if length (SUFFIX cfg) \<le> length fname
                then take (length fname - length (SUFFIX cfg)) fname else fname)"
proof -
  let ?a = "length fname" and ?b = "length (SUFFIX cfg)"
  have ua: "unat (word_of_nat ?a :: size_t) = ?a" and ub: "unat (word_of_nat ?b :: size_t) = ?b"
    using assms by (simp_all add: unat_of_nat)
  have "unat (word_of_nat ?a - word_of_nat ?b :: size_t)
          = (if ?b \<le> ?a then ?a - ?b else ?a + 2 ^ 64 - ?b)"
    by (simp add: unat_sub_if_size ua ub word_size)
  moreover have "?b \<le> ?a \<Longrightarrow> min (?a - ?b) ?a = ?a - ?b"
    by simp
  moreover have "\<not> ?b \<le> ?a \<Longrightarrow> min (?a + 2 ^ 64 - ?b) ?a = ?a"
    using assms by simp
  ultimately show ?thesis
    by (simp add: output_name_def substr_def)
qed

lemma taskloop_decompress_fault:
  "taskloop (decompress_task ev mem infos ptrs) ks st = Inl f \<Longrightarrow> f = OutOfBounds"
proof (induction ks arbitrary: st)
  case Nil
  then show ?case by simp
next
  case (Cons k ks)
  then show ?case
    by (auto simp: decompress_task_def decompressBlock_def Let_def
        split: sum.splits option.splits if_splits)
qed

text \<open>
  C10 (as amended). \<^verbatim>\<open>decompressDataParallel\<close>, and \<^verbatim>\<open>doParallelWork\<close> in decompression
  mode, which hands the name over unchecked, name the output file by cutting as many
  characters off the end of the input name as the suffix has, whatever those characters
  are. For a name shorter than the suffix the subtraction wraps around to a count that
  \<^verbatim>\<open>substr\<close> clamps to the length of the name: no \<^verbatim>\<open>std::out_of_range\<close> is raised and
  the output file carries the whole input name.
\<close>

theorem decompress_names_output_by_length:
  assumes "length fname < 2 ^ 64" and "length (SUFFIX cfg) < 2 ^ 64"
  shows "doParallelWork cfg ev (Some mem) fname sz False = decompressDataParallel cfg ev mem fname
       \<and> decompressDataParallel cfg ev mem fname \<noteq> Inl OutOfRange
       \<and> (\<forall>eff outfile contents.
             decompressDataParallel cfg ev mem fname = Inr eff
             \<and> written eff = Some (outfile, contents)
             \<longrightarrow> outfile = (if length (SUFFIX cfg) \<le> length fname
                             then take (length fname - length (SUFFIX cfg)) fname
                             else fname))"
proof -
  note n = output_name_eq[OF assms]
  have 1: "doParallelWork cfg ev (Some mem) fname sz False = decompressDataParallel cfg ev mem fname"
    by (simp add: doParallelWork_def)
  have 2: "decompressDataParallel cfg ev mem fname \<noteq> Inl OutOfRange"
    unfolding decompressDataParallel_def n
    by (auto simp: Let_def failed_def decompressBlock_def
        split: option.splits sum.splits if_splits dest: taskloop_decompress_fault)
  have 3: "outfile = (if length (SUFFIX cfg) \<le> length fname
                      then take (length fname - length (SUFFIX cfg)) fname else fname)"
    if "decompressDataParallel cfg ev mem fname = Inr eff" "written eff = Some (outfile, contents)"
    for eff outfile contents
    using that unfolding decompressDataParallel_def n
    by (auto simp: Let_def failed_def split: option.splits sum.splits if_splits)
  from 1 2 3 show ?thesis by blast
qed

theorem decompress_names_output_by_length_witness:
  "length ''ab'' < (2::nat) ^ 64 \<and> length (SUFFIX (sample_config 0)) < (2::nat) ^ 64
   \<and> decompressDataParallel (sample_config 0) (stored_env 4 (\<lambda>n. [0..<n])) small_archive ''ab''
       \<noteq> Inl OutOfRange"
  using decompress_names_output_by_length
          [of "''ab''" "sample_config 0" "stored_env 4 (\<lambda>n. [0..<n])" small_archive 0]
  by (simp add: sample_config_def)

text \<open>
  C10 as stated fails: with the suffix \<^verbatim>\<open>.zip\<close> and the two-character name \<^verbatim>\<open>ab\<close>, no
  out-of-range error is raised; the archive is decompressed into a file named \<^verbatim>\<open>ab\<close>.
\<close>

theorem short_name_raises_no_out_of_range:
  "length ''ab'' < length (SUFFIX (sample_config 0))
   \<and> output_name (sample_config 0) ''ab'' = Inr ''ab''
   \<and> decompressDataParallel (sample_config 0) (stored_env 4 (\<lambda>n. [0..<n])) small_archive ''ab''
       = Inr \<lparr>returned = True, written = Some (''ab'', [7, 8, 9]), unlinked = None\<rparr>"
  by (simp add: decompressDataParallel_def sample_config_def stored_env_def small_archive_def
      read_bytes_def decode_size_t_def decode_DataBlock_def output_name_def substr_def
      decompressBlock_def write_bytes_def Let_def)

section \<open>Arithmetic of the plan\<close>

lemma ceil_div_nat:
  assumes "0 < (t::nat)"
  shows "nat \<lceil>real s / real t\<rceil> = (s + t - 1) div t"
proof -
  define q where "q = (s + t - 1) div t"
  have lo: "q * t \<le> s + t - 1"
    unfolding q_def by simp
  have hi: "s + t - 1 < t + q * t"
    unfolding q_def using assms by (rule dividend_less_div_times)
  from hi have "s \<le> q * t" by simp
  then have a: "real s \<le> real q * real t"
    by (metis of_nat_le_iff of_nat_mult)
  from lo assms have "q * t + 1 \<le> s + t" by simp
  then have "real (q * t + 1) \<le> real (s + t)"
    by (simp only: of_nat_le_iff)
  then have b: "(real q - 1) * real t < real s"
    by (simp add: algebra_simps)
  have "\<lceil>real s / real t\<rceil> = int q"
  proof (rule ceiling_unique)
    show "of_int (int q) - 1 < real s / real t"
      using b assms by (simp add: pos_less_divide_eq)
    show "real s / real t \<le> of_int (int q)"
      using a assms by (simp add: pos_divide_le_eq)
  qed
  then show ?thesis by (simp add: q_def)
qed

lemma unat_word_of_int_nonneg:
  assumes "0 \<le> k" "k < 2 ^ 64"
  shows "unat (word_of_int k :: size_t) = nat k"
proof -
  have "unat (word_of_int k :: size_t) = nat (take_bit 64 k)"
    by (simp add: unsigned_of_int)
  also have "take_bit 64 k = k"
    using assms by (simp add: take_bit_int_eq_self)
  finally show ?thesis .
qed

lemma unat_min: "unat (min a b) = min (unat a) (unat (b::size_t))"
  by (simp add: min_def word_le_nat_alt)

lemma unat_ceil_div:
  assumes "b \<noteq> 0" "unat a + unat b \<le> 2 ^ 64"
  shows "unat ((a + b - 1) div b) = (unat a + unat b - 1) div unat (b::size_t)"
proof -
  have b1: "unat (b - 1) = unat b - 1"
    using assms(1) by (simp add: unat_minus_one)
  have bpos: "0 < unat b"
    using assms(1) by (simp add: unat_gt_0)
  have "unat a + unat (b - 1) < 2 ^ 64"
    using assms(2) bpos b1 by simp
  then have "unat (a + (b - 1)) = unat a + unat (b - 1)"
    by (simp add: unat_add_lem[THEN iffD1])
  moreover have "a + b - 1 = a + (b - 1)" by simp
  ultimately have "unat (a + b - 1) = unat a + unat (b - 1)"
    by (simp only:)
  then have "unat (a + b - 1) = unat a + unat b - 1"
    using b1 bpos by simp
  then show ?thesis by (simp add: unat_div)
qed

lemma unat_plan_numBlocks:
  assumes "big < sz" "big \<noteq> 0" "unat sz < 2 ^ 63" "0 < p" "p * 2 < 2 ^ 31"
  shows "unat (plan_numBlocks big p sz)
           = min ((unat sz + unat big - 1) div unat big) (nat (2 * p))"
proof -
  have "unat big < unat sz" using assms(1) by (simp add: word_less_nat_alt)
  then have "unat sz + unat big \<le> 2 ^ 64" using assms(3) by simp
  then have "unat ((sz + big - 1) div big) = (unat sz + unat big - 1) div unat big"
    using assms(2) by (rule unat_ceil_div[rotated])
  moreover have "unat (word_of_int (p * 2) :: size_t) = nat (p * 2)"
    using assms(4,5) by (intro unat_word_of_int_nonneg) simp_all
  ultimately show ?thesis
    by (simp add: plan_numBlocks_def unat_min mult.commute)
qed

section \<open>The taskloop of the compressor\<close>

lemma unat_size_t_less: "unat (n::size_t) < 2 ^ 64"
proof -
  have "unat n < 2 ^ LENGTH(64)" by (rule unsigned_less)
  then show ?thesis by simp
qed

lemma unat_of_nat_index: "k < unat (n::size_t) \<Longrightarrow> unat (word_of_nat k :: size_t) = k"
  using unat_size_t_less[of n] by (simp add: unat_of_nat)

lemma compress_task_fault:
  assumes "k < unat numBlocks" "block_source ptr sz numBlocks bs k = None"
  shows "compress_task ev ptr sz numBlocks bs (word_of_nat k) st = Inl OutOfBounds"
  using assms
  by (simp add: compress_task_def compressBlock_def block_source_def Let_def)

lemma compress_task_run:
  assumes "k < unat numBlocks" "block_source ptr sz numBlocks bs k \<noteq> None"
    "length (blockInfos st) = unat numBlocks"
  shows "compress_task ev ptr sz numBlocks bs (word_of_nat k) st =
     Inr (st\<lparr>blockInfos := (blockInfos st)[k := task_info ev ptr sz numBlocks bs k (blockInfos st ! k)],
             compressedBlocks := (case block_output ev ptr sz numBlocks bs k of
                                    None \<Rightarrow> compressedBlocks st
                                  | Some out \<Rightarrow> (compressedBlocks st)[k := out]),
             compressionSuccess := (compressionSuccess st \<and> block_output ev ptr sz numBlocks bs k \<noteq> None)\<rparr>)"
  using assms
  apply (clarsimp simp: compress_task_def compressBlock_def block_source_def block_output_def Let_def
      unat_of_nat_index task_info_def split: option.splits)
  done

lemma taskloop_compress_fault:
  assumes "\<forall>k\<in>set ks. k < unat numBlocks"
    and "\<exists>k\<in>set ks. block_source ptr sz numBlocks bs k = None"
    and "length (blockInfos st) = unat numBlocks"
  shows "taskloop (compress_task ev ptr sz numBlocks bs) ks st = Inl OutOfBounds"
  using assms
proof (induction ks arbitrary: st)
  case Nil
  then show ?case by simp
next
  case (Cons k ks)
  show ?case
  proof (cases "block_source ptr sz numBlocks bs k = None")
    case True
    with Cons.prems(1) show ?thesis
      by (simp add: compress_task_fault)
  next
    case False
    with Cons.prems have ex: "\<exists>k\<in>set ks. block_source ptr sz numBlocks bs k = None"
      by auto
    from Cons.prems(1) have k: "k < unat numBlocks" and ks: "\<forall>k\<in>set ks. k < unat numBlocks"
      by simp_all
    show ?thesis
      using Cons.IH[OF ks ex] Cons.prems(3)
      by (simp add: compress_task_run[OF k False Cons.prems(3)])
  qed
qed

lemma taskloop_compress_run:
  assumes "distinct ks"
    and "\<forall>k\<in>set ks. k < unat numBlocks \<and> block_source ptr sz numBlocks bs k \<noteq> None"
    and "length (blockInfos st) = unat numBlocks"
    and "length (compressedBlocks st) = unat numBlocks"
  shows "\<exists>st'. taskloop (compress_task ev ptr sz numBlocks bs) ks st = Inr st'
           \<and> length (blockInfos st') = unat numBlocks
           \<and> length (compressedBlocks st') = unat numBlocks
           \<and> (\<forall>j<unat numBlocks. blockInfos st' ! j =
                  (if j \<in> set ks then task_info ev ptr sz numBlocks bs j (blockInfos st ! j)
                   else blockInfos st ! j))
           \<and> (\<forall>j<unat numBlocks. compressedBlocks st' ! j =
                  (if j \<in> set ks
                   then (case block_output ev ptr sz numBlocks bs j of
                           None \<Rightarrow> compressedBlocks st ! j | Some out \<Rightarrow> out)
                   else compressedBlocks st ! j))
           \<and> compressionSuccess st' =
                 (compressionSuccess st \<and> (\<forall>k\<in>set ks. block_output ev ptr sz numBlocks bs k \<noteq> None))"
  using assms
proof (induction ks arbitrary: st)
  case Nil
  then show ?case by simp
next
  case (Cons k ks)
  from Cons.prems(2) have k: "k < unat numBlocks" and src: "block_source ptr sz numBlocks bs k \<noteq> None"
    and ks: "\<forall>k\<in>set ks. k < unat numBlocks \<and> block_source ptr sz numBlocks bs k \<noteq> None"
    by simp_all
  from Cons.prems(1) have nk: "k \<notin> set ks" and d: "distinct ks"
    by simp_all
  define st1 where "st1 = st\<lparr>blockInfos := (blockInfos st)[k := task_info ev ptr sz numBlocks bs k (blockInfos st ! k)],
             compressedBlocks := (case block_output ev ptr sz numBlocks bs k of
                                    None \<Rightarrow> compressedBlocks st
                                  | Some out \<Rightarrow> (compressedBlocks st)[k := out]),
             compressionSuccess := (compressionSuccess st \<and> block_output ev ptr sz numBlocks bs k \<noteq> None)\<rparr>"
  have step: "compress_task ev ptr sz numBlocks bs (word_of_nat k) st = Inr st1"
    unfolding st1_def by (rule compress_task_run[OF k src Cons.prems(3)])
  have l1: "length (blockInfos st1) = unat numBlocks"
    and l2: "length (compressedBlocks st1) = unat numBlocks"
    using Cons.prems(3,4) by (simp_all add: st1_def split: option.splits)
  from Cons.IH[OF d ks l1 l2] obtain st' where
    r: "taskloop (compress_task ev ptr sz numBlocks bs) ks st1 = Inr st'"
    and a: "length (blockInfos st') = unat numBlocks"
    and b: "length (compressedBlocks st') = unat numBlocks"
    and c: "\<forall>j<unat numBlocks. blockInfos st' ! j =
                  (if j \<in> set ks then task_info ev ptr sz numBlocks bs j (blockInfos st1 ! j)
                   else blockInfos st1 ! j)"
    and e: "\<forall>j<unat numBlocks. compressedBlocks st' ! j =
                  (if j \<in> set ks
                   then (case block_output ev ptr sz numBlocks bs j of
                           None \<Rightarrow> compressedBlocks st1 ! j | Some out \<Rightarrow> out)
                   else compressedBlocks st1 ! j)"
    and f: "compressionSuccess st' =
                 (compressionSuccess st1 \<and> (\<forall>k\<in>set ks. block_output ev ptr sz numBlocks bs k \<noteq> None))"
    by blast
  have i1: "blockInfos st1 ! j = (if j = k then task_info ev ptr sz numBlocks bs k (blockInfos st ! k)
                                  else blockInfos st ! j)" if "j < unat numBlocks" for j
    using that Cons.prems(3) by (simp add: st1_def nth_list_update)
  have i2: "compressedBlocks st1 ! j =
              (if j = k then (case block_output ev ptr sz numBlocks bs k of
                                None \<Rightarrow> compressedBlocks st ! k | Some out \<Rightarrow> out)
               else compressedBlocks st ! j)" if "j < unat numBlocks" for j
    using that Cons.prems(4) by (simp add: st1_def nth_list_update split: option.splits)
  have c': "\<forall>j<unat numBlocks. blockInfos st' ! j =
                  (if j \<in> set (k # ks) then task_info ev ptr sz numBlocks bs j (blockInfos st ! j)
                   else blockInfos st ! j)"
    using c i1 nk by auto
  have e': "\<forall>j<unat numBlocks. compressedBlocks st' ! j =
                  (if j \<in> set (k # ks)
                   then (case block_output ev ptr sz numBlocks bs j of
                           None \<Rightarrow> compressedBlocks st ! j | Some out \<Rightarrow> out)
                   else compressedBlocks st ! j)"
    using e i2 nk by (auto split: option.splits)
  have f': "compressionSuccess st' =
                 (compressionSuccess st \<and> (\<forall>k\<in>set (k # ks). block_output ev ptr sz numBlocks bs k \<noteq> None))"
    using f by (auto simp: st1_def)
  show ?case
    using step r a b c' e' f' by simp
qed

lemma perm_upt:
  assumes "mset ks = mset [0..<n]"
  shows "distinct ks" and "set ks = {0..<n}"
proof -
  show "distinct ks"
    using assms by (metis distinct_upt mset_eq_imp_distinct_iff)
  show "set ks = {0..<n}"
    using assms by (metis mset_eq_setD set_upt)
qed

lemma compress_multi_block:
  assumes big: "\<not> sz \<le> BIG_FILE_SIZE cfg"
    and perm: "mset (taskloop_order ev (unat (archive_numBlocks cfg ev sz)))
                 = mset [0..<unat (archive_numBlocks cfg ev sz)]"
    and ok: "BIG_FILE_SIZE cfg \<noteq> 0"
      "\<not> (omp_get_max_threads ev * 2 < - (2 ^ 31) \<or> 2 ^ 31 \<le> omp_get_max_threads ev * 2)"
      "archive_numBlocks cfg ev sz \<noteq> 0"
  shows "compressDataParallel cfg ev ptr sz fname =
     (if \<exists>k<unat (archive_numBlocks cfg ev sz).
            block_source ptr sz (archive_numBlocks cfg ev sz) (archive_blockSize cfg ev sz) k = None
      then Inl OutOfBounds
      else if \<exists>k<unat (archive_numBlocks cfg ev sz).
            block_output ev ptr sz (archive_numBlocks cfg ev sz) (archive_blockSize cfg ev sz) k = None
      then Inr failed
      else if \<not> open_ok ev (fname @ SUFFIX cfg) then Inr failed
      else Inr \<lparr>returned = True,
                written = Some (fname @ SUFFIX cfg, expected_archive cfg ev ptr sz),
                unlinked = (if REMOVE_ORIGIN cfg then Some fname else None)\<rparr>)"
proof -
  define n where "n = archive_numBlocks cfg ev sz"
  define bs where "bs = archive_blockSize cfg ev sz"
  define ks where "ks = taskloop_order ev (unat n)"
  define st0 where "st0 = \<lparr>blockInfos = replicate (unat n)
                                   \<lparr>originalSize = 0, compressedSize = 0, blockIndex = 0\<rparr>,
                                 compressedBlocks = replicate (unat n) [],
                                 compressionSuccess = True\<rparr>"
  have n_eq: "plan_numBlocks (BIG_FILE_SIZE cfg) (omp_get_max_threads ev) sz = n"
    using big by (simp add: n_def archive_numBlocks_def)
  have bs_eq: "plan_blockSize sz n = bs"
    by (simp add: bs_def n_def archive_blockSize_def)
  have unfold: "compressDataParallel cfg ev ptr sz fname =
     (case taskloop (compress_task ev ptr sz n bs) ks st0 of
        Inl f \<Rightarrow> Inl f
      | Inr st \<Rightarrow>
          if \<not> compressionSuccess st then Inr failed
          else if \<not> open_ok ev (fname @ SUFFIX cfg) then Inr failed
          else Inr \<lparr>returned = True,
                    written = Some (fname @ SUFFIX cfg,
                                archive_bytes n (blockInfos st) (compressedBlocks st)),
                    unlinked = (if REMOVE_ORIGIN cfg then Some fname else None)\<rparr>)"
    using big ok unfolding compressDataParallel_def
    by (simp add: Let_def n_eq bs_eq ks_def st0_def flip: n_def split: sum.splits)
  have d: "distinct ks" and s: "set ks = {0..<unat n}"
    using perm_upt[OF perm[folded n_def]] by (simp_all add: ks_def)
  have l: "length (blockInfos st0) = unat n" "length (compressedBlocks st0) = unat n"
    by (simp_all add: st0_def)
  show ?thesis
  proof (cases "\<exists>k<unat n. block_source ptr sz n bs k = None")
    case True
    then have ex: "\<exists>k\<in>set ks. block_source ptr sz n bs k = None"
      using s by auto
    have "\<forall>k\<in>set ks. k < unat n"
      using s by auto
    then have "taskloop (compress_task ev ptr sz n bs) ks st0 = Inl OutOfBounds"
      using ex l(1) by (rule taskloop_compress_fault)
    with True show ?thesis
      by (simp add: unfold flip: n_def bs_def)
  next
    case False
    then have "\<forall>k\<in>set ks. k < unat n \<and> block_source ptr sz n bs k \<noteq> None"
      using s by auto
    from taskloop_compress_run[OF d this l] obtain st where
      r: "taskloop (compress_task ev ptr sz n bs) ks st0 = Inr st"
      and a: "length (blockInfos st) = unat n"
      and b: "length (compressedBlocks st) = unat n"
      and c: "\<forall>j<unat n. blockInfos st ! j =
                  (if j \<in> set ks then task_info ev ptr sz n bs j (blockInfos st0 ! j)
                   else blockInfos st0 ! j)"
      and e: "\<forall>j<unat n. compressedBlocks st ! j =
                  (if j \<in> set ks
                   then (case block_output ev ptr sz n bs j of
                           None \<Rightarrow> compressedBlocks st0 ! j | Some out \<Rightarrow> out)
                   else compressedBlocks st0 ! j)"
      and f: "compressionSuccess st =
                 (compressionSuccess st0 \<and> (\<forall>k\<in>set ks. block_output ev ptr sz n bs k \<noteq> None))"
      by blast
    have f': "compressionSuccess st = (\<not> (\<exists>k<unat n. block_output ev ptr sz n bs k = None))"
      using f s by (auto simp: st0_def)
    have infos: "blockInfos st = map (block_descriptor ev ptr sz n bs) [0..<unat n]"
    proof (rule nth_equalityI)
      show "length (blockInfos st) = length (map (block_descriptor ev ptr sz n bs) [0..<unat n])"
        using a by simp
      fix j assume "j < length (blockInfos st)"
      then have j: "j < unat n" using a by simp
      then have "blockInfos st ! j = task_info ev ptr sz n bs j (blockInfos st0 ! j)"
        using c s by simp
      also have "\<dots> = block_descriptor ev ptr sz n bs j"
        using j by (simp add: task_info_def block_descriptor_def st0_def split: option.splits)
      finally show "blockInfos st ! j = map (block_descriptor ev ptr sz n bs) [0..<unat n] ! j"
        using j by simp
    qed
    have blocks: "compressedBlocks st = map (\<lambda>k. the (block_output ev ptr sz n bs k)) [0..<unat n]"
      if all: "\<not> (\<exists>k<unat n. block_output ev ptr sz n bs k = None)"
    proof (rule nth_equalityI)
      show "length (compressedBlocks st) = length (map (\<lambda>k. the (block_output ev ptr sz n bs k)) [0..<unat n])"
        using b by simp
      fix j assume "j < length (compressedBlocks st)"
      then have j: "j < unat n" using b by simp
      with all obtain out where "block_output ev ptr sz n bs j = Some out"
        by auto
      then show "compressedBlocks st ! j = map (\<lambda>k. the (block_output ev ptr sz n bs k)) [0..<unat n] ! j"
        using e s j by simp
    qed
    show ?thesis
    proof (cases "\<exists>k<unat n. block_output ev ptr sz n bs k = None")
      case True
      with False f' show ?thesis
        by (simp add: unfold r flip: n_def bs_def)
    next
      case none: False
      with False f' infos blocks[OF none] show ?thesis
        by (auto simp: unfold r expected_archive_def Let_def simp flip: n_def bs_def)
    qed
  qed
qed

lemma compress_single_block:
  assumes small: "sz \<le> BIG_FILE_SIZE cfg"
  shows "compressDataParallel cfg ev ptr sz fname =
     (if \<exists>k<unat (archive_numBlocks cfg ev sz).
            block_source ptr sz (archive_numBlocks cfg ev sz) (archive_blockSize cfg ev sz) k = None
      then Inl OutOfBounds
      else if \<exists>k<unat (archive_numBlocks cfg ev sz).
            block_output ev ptr sz (archive_numBlocks cfg ev sz) (archive_blockSize cfg ev sz) k = None
      then Inr failed
      else if \<not> open_ok ev (fname @ SUFFIX cfg) then Inr failed
      else Inr \<lparr>returned = True,
                written = Some (fname @ SUFFIX cfg, expected_archive cfg ev ptr sz),
                unlinked = (if REMOVE_ORIGIN cfg then Some fname else None)\<rparr>)"
proof -
  have n: "archive_numBlocks cfg ev sz = 1"
    using small by (simp add: archive_numBlocks_def)
  have cur: "currentBlockSize sz 1 bs 0 = sz" for bs
    by (simp add: currentBlockSize_def block_offset_def)
  have src: "block_source ptr sz 1 bs 0 = read_bytes ptr 0 (unat sz)" for bs
    by (simp add: block_source_def cur block_offset_def)
  have out: "block_output ev ptr sz 1 bs 0 =
               (case read_bytes ptr 0 (unat sz) of None \<Rightarrow> None
                | Some s \<Rightarrow> compress ev s (compressBound ev sz))" for bs
    by (simp add: block_output_def src cur split: option.splits)
  show ?thesis
    using small
    by (auto simp: compressDataParallel_def n src out compressBlock_def expected_archive_def
        block_descriptor_def cur Let_def split: option.splits)
qed

lemma compress_undefined_plan:
  assumes "\<not> plan_defined cfg ev sz"
  shows "\<exists>f. compressDataParallel cfg ev ptr sz fname = Inl f"
  using assms
  by (auto simp: plan_defined_def compressDataParallel_def archive_numBlocks_def Let_def)

lemma compressDataParallel_eq:
  assumes perm: "mset (taskloop_order ev (unat (archive_numBlocks cfg ev sz)))
                 = mset [0..<unat (archive_numBlocks cfg ev sz)]"
    and "plan_defined cfg ev sz"
  shows "compressDataParallel cfg ev ptr sz fname =
     (if \<exists>k<unat (archive_numBlocks cfg ev sz).
            block_source ptr sz (archive_numBlocks cfg ev sz) (archive_blockSize cfg ev sz) k = None
      then Inl OutOfBounds
      else if \<exists>k<unat (archive_numBlocks cfg ev sz).
            block_output ev ptr sz (archive_numBlocks cfg ev sz) (archive_blockSize cfg ev sz) k = None
      then Inr failed
      else if \<not> open_ok ev (fname @ SUFFIX cfg) then Inr failed
      else Inr \<lparr>returned = True,
                written = Some (fname @ SUFFIX cfg, expected_archive cfg ev ptr sz),
                unlinked = (if REMOVE_ORIGIN cfg then Some fname else None)\<rparr>)"
proof (cases "sz \<le> BIG_FILE_SIZE cfg")
  case True
  then show ?thesis by (rule compress_single_block)
next
  case False
  with assms(2) show ?thesis
    by (intro compress_multi_block[OF False perm]) (auto simp: plan_defined_def)
qed

lemma index_less_last:
  assumes "n \<noteq> 0" "k < unat (n::size_t)"
  shows "((word_of_nat k :: size_t) < n - 1) = (k < unat n - 1)"
  using assms by (simp add: word_less_nat_alt unat_minus_one unat_of_nat_index)

lemma currentBlockSize_inner:
  assumes "n \<noteq> 0" "k < unat n - 1"
  shows "currentBlockSize sz n bs (word_of_nat k) = bs"
proof -
  from assms(2) have "k < unat n" by simp
  with assms show ?thesis
    by (simp add: currentBlockSize_def index_less_last)
qed

lemma currentBlockSize_last:
  assumes "n \<noteq> 0"
  shows "currentBlockSize sz n bs (word_of_nat (unat n - 1)) = sz - block_offset bs (word_of_nat (unat n - 1))"
proof -
  have "unat n - 1 < unat n"
    using assms by (simp add: unat_gt_0)
  then show ?thesis
    using assms by (simp add: currentBlockSize_def index_less_last)
qed

text \<open>When every block lies inside the buffer, the offsets are exact products.\<close>

lemma block_offset_exact:
  assumes n0: "n \<noteq> 0"
    and rd: "\<forall>k<unat n. block_source ptr sz n bs k \<noteq> None"
    and len: "length ptr = unat sz"
    and k: "k < unat n"
  shows "unat (block_offset bs (word_of_nat k)) = k * unat bs"
  using k
proof (induction k)
  case 0
  then show ?case by (simp add: block_offset_def)
next
  case (Suc k)
  then have k: "k < unat n - 1" and kn: "k < unat n" by simp_all
  from rd kn have "block_source ptr sz n bs k \<noteq> None" by simp
  then have "unat (block_offset bs (word_of_nat k)) + unat bs \<le> unat sz"
    using len by (simp add: block_source_def read_bytes_def currentBlockSize_inner[OF n0 k]
        split: if_splits)
  moreover have "unat sz < 2 ^ 64" by (rule unat_size_t_less)
  ultimately have "unat (block_offset bs (word_of_nat k)) + unat bs < 2 ^ LENGTH(64)"
    by simp
  then have "unat (block_offset bs (word_of_nat k) + bs) = unat (block_offset bs (word_of_nat k)) + unat bs"
    by (simp only: unat_add_lem[THEN iffD1])
  moreover have "block_offset bs (word_of_nat (Suc k)) = block_offset bs (word_of_nat k) + bs"
    by (simp add: block_offset_def algebra_simps)
  ultimately show ?case
    using Suc.IH[OF kn] by simp
qed

lemma sum_originalSize_blocks:
  assumes n0: "n \<noteq> 0"
    and rd: "\<forall>k<unat n. block_source ptr sz n bs k \<noteq> None"
    and len: "length ptr = unat sz"
  shows "(\<Sum>k\<leftarrow>[0..<unat n]. unat (currentBlockSize sz n bs (word_of_nat k))) = unat sz"
proof -
  define m where "m = unat n - 1"
  have n: "unat n = Suc m"
    using n0 by (simp add: m_def unat_gt_0)
  have inner: "(\<Sum>k\<leftarrow>[0..<m]. unat (currentBlockSize sz n bs (word_of_nat k))) = m * unat bs"
  proof -
    have "map (\<lambda>k. unat (currentBlockSize sz n bs (word_of_nat k))) [0..<m] = map (\<lambda>k. unat bs) [0..<m]"
      by (rule map_cong) (simp_all add: currentBlockSize_inner[OF n0] m_def)
    then have "(\<Sum>k\<leftarrow>[0..<m]. unat (currentBlockSize sz n bs (word_of_nat k)))
                 = (\<Sum>k\<leftarrow>[0..<m]. unat bs)"
      by (simp only:)
    also have "\<dots> = m * unat bs"
      by (simp add: sum_list_triv)
    finally show ?thesis .
  qed
  have off: "unat (block_offset bs (word_of_nat m)) = m * unat bs"
    using block_offset_exact[OF n0 rd len, of m] n by simp
  from rd n have "block_source ptr sz n bs m \<noteq> None" by simp
  then have "unat (block_offset bs (word_of_nat m)) + unat (sz - block_offset bs (word_of_nat m)) \<le> unat sz"
    using len currentBlockSize_last[OF n0, of sz bs]
    by (simp add: block_source_def read_bytes_def m_def split: if_splits)
  then have le: "block_offset bs (word_of_nat m) \<le> sz"
    by (simp add: word_le_nat_alt)
  have last: "unat (currentBlockSize sz n bs (word_of_nat m)) = unat sz - m * unat bs"
    using currentBlockSize_last[OF n0, of sz bs] unat_sub[OF le] off by (simp add: m_def)
  have "m * unat bs \<le> unat sz"
    using le off by (simp add: word_le_nat_alt)
  then show ?thesis
    by (simp add: n inner last)
qed

lemma map_nth_upt: "length xs = n \<Longrightarrow> map (\<lambda>i. f (xs ! i)) [0..<n] = map f xs"
  by (auto intro: nth_equalityI)

lemma archive_bytes_eq:
  assumes "length infos = unat n" "length blocks = unat n"
    "\<forall>i<unat n. length (blocks ! i) = unat (compressedSize (infos ! i))"
  shows "archive_bytes n infos blocks =
           encode_size_t n @ concat (map encode_DataBlock infos) @ concat blocks"
proof -
  have "map (\<lambda>i. take (unat (compressedSize (infos ! i))) (blocks ! i)) [0..<unat n] = blocks"
    using assms by (auto intro: nth_equalityI)
  then show ?thesis
    using assms(1) by (simp add: archive_bytes_def map_nth_upt)
qed

lemma read_blockInfos_encoded:
  "read_blockInfos (pre @ concat (map encode_DataBlock infos) @ rest) (length pre) (length infos)
     = Some infos"
proof (induction infos arbitrary: pre)
  case Nil
  then show ?case by simp
next
  case (Cons b infos)
  have r: "read_bytes (pre @ encode_DataBlock b @ concat (map encode_DataBlock infos) @ rest) (length pre) 24
             = Some (encode_DataBlock b)"
    by (simp add: read_bytes_def length_encode_DataBlock)
  have "read_blockInfos ((pre @ encode_DataBlock b) @ concat (map encode_DataBlock infos) @ rest)
          (length (pre @ encode_DataBlock b)) (length infos) = Some infos"
    by (rule Cons.IH)
  then show ?case
    using r decode_encode_DataBlock[of b "[]"] by (simp add: length_encode_DataBlock)
qed

lemma archive_numBlocks_nonzero:
  "plan_defined cfg ev sz \<Longrightarrow> archive_numBlocks cfg ev sz \<noteq> 0"
  by (auto simp: plan_defined_def archive_numBlocks_def)

section \<open>When every block lies inside the buffer\<close>

lemma last_offset_bound:
  fixes S T n b :: nat
  assumes T: "0 < T" and ST: "T < S"
    and n: "2 \<le> n" "n \<le> (S + T - 1) div T"
    and nT: "n - 1 \<le> T"
    and b: "b = (S + n - 1) div n"
  shows "(n - 1) * b \<le> S"
proof -
  define m where "m = n - 1"
  have nm: "n = Suc m" and m1: "1 \<le> m"
    using n(1) by (simp_all add: m_def)
  define c where "c = (S + T - 1) div T"
  have "c * T \<le> S + T - 1"
    unfolding c_def by simp
  moreover have "Suc m \<le> c"
    using n(2) by (simp add: c_def nm)
  then have "Suc m * T \<le> c * T"
    by (rule mult_le_mono1)
  ultimately have "m * T + T \<le> S + T - 1"
    by simp
  then have mT: "m * T < S"
    using T by simp
  have "m \<le> T"
    using nT by (simp add: m_def)
  then have "m * m \<le> m * T"
    by (rule mult_le_mono2)
  from this mT have mm: "m * m < S"
    by (rule le_less_trans)
  have nb: "b * n \<le> S + n - 1"
    unfolding b by simp
  have "S + n - 1 < n + b * n"
    unfolding b using n(1) by (intro dividend_less_div_times) simp
  then have Snb: "S \<le> b * n"
    by simp
  have bm: "m \<le> b"
  proof (rule ccontr)
    assume "\<not> m \<le> b"
    then have "Suc b \<le> m" by simp
    then have "Suc b * Suc m \<le> m * Suc m"
      by (rule mult_le_mono1)
    then have "b * Suc m + Suc m \<le> m * m + m"
      by simp
    then have "b * Suc m < m * m"
      by simp
    with Snb mm show False
      by (simp add: nm)
  qed
  from nb have "b * m + b \<le> S + m"
    by (simp add: nm)
  with bm have "b * m \<le> S"
    by simp
  then show ?thesis
    by (simp add: m_def mult.commute)
qed

lemma blocks_readable:
  assumes n0: "n \<noteq> 0"
    and len: "length ptr = unat sz"
    and last: "(unat n - 1) * unat bs \<le> unat sz"
  shows "\<forall>k<unat n. block_source ptr sz n bs k \<noteq> None"
proof (intro allI impI)
  fix k assume k: "k < unat n"
  have kb: "k * unat bs \<le> (unat n - 1) * unat bs"
    using k by (intro mult_le_mono1) simp
  from kb last have "k * unat bs \<le> unat sz"
    by (rule order_trans)
  from this unat_size_t_less[of sz] have "k * unat bs < 2 ^ 64"
    by (rule le_less_trans)
  then have "unat (word_of_nat k :: size_t) * unat bs < 2 ^ LENGTH(64)"
    by (simp add: unat_of_nat_index[OF k])
  then have off: "unat (block_offset bs (word_of_nat k)) = k * unat bs"
    by (simp add: block_offset_def unat_mult_lem[THEN iffD1] unat_of_nat_index[OF k])
  show "block_source ptr sz n bs k \<noteq> None"
  proof (cases "k < unat n - 1")
    case True
    then have "Suc k * unat bs \<le> (unat n - 1) * unat bs"
      by (intro mult_le_mono1) simp
    from this last have "Suc k * unat bs \<le> unat sz"
      by (rule order_trans)
    then have "k * unat bs + unat bs \<le> unat sz"
      by simp
    then show ?thesis
      using len by (simp add: block_source_def read_bytes_def off currentBlockSize_inner[OF n0 True])
  next
    case False
    with k have kl: "k = unat n - 1" by simp
    from last have lk: "k * unat bs \<le> unat sz"
      by (simp only: kl)
    then have le: "block_offset bs (word_of_nat k) \<le> sz"
      by (simp add: word_le_nat_alt off)
    have "currentBlockSize sz n bs (word_of_nat k) = sz - block_offset bs (word_of_nat k)"
      using currentBlockSize_last[OF n0, of sz bs] by (simp only: kl)
    then have "unat (currentBlockSize sz n bs (word_of_nat k)) = unat sz - k * unat bs"
      using unat_sub[OF le] off by simp
    then show ?thesis
      using len lk by (simp add: block_source_def read_bytes_def off)
  qed
qed

lemma plan_in_range:
  assumes big: "BIG_FILE_SIZE cfg < sz"
    and sz: "unat sz < 2 ^ 63"
    and p: "0 < omp_get_max_threads ev" "omp_get_max_threads ev * 2 < 2 ^ 31"
    and thr: "nat (2 * omp_get_max_threads ev) \<le> unat (BIG_FILE_SIZE cfg) + 1"
  shows "plan_defined cfg ev sz"
    and "(unat (archive_numBlocks cfg ev sz) - 1) * unat (archive_blockSize cfg ev sz) \<le> unat sz"
proof -
  let ?T = "unat (BIG_FILE_SIZE cfg)" and ?S = "unat sz"
  define n where "n = archive_numBlocks cfg ev sz"
  have t0: "BIG_FILE_SIZE cfg \<noteq> 0"
  proof
    assume "BIG_FILE_SIZE cfg = 0"
    with thr p(1) show False by (simp add: nat_le_iff)
  qed
  then have T: "0 < ?T"
    by (simp add: unat_gt_0)
  have ST: "?T < ?S"
    using big by (simp add: word_less_nat_alt)
  from big have "\<not> sz \<le> BIG_FILE_SIZE cfg"
    by (simp add: not_le)
  then have n_eq: "n = plan_numBlocks (BIG_FILE_SIZE cfg) (omp_get_max_threads ev) sz"
    by (simp add: n_def archive_numBlocks_def)
  have un: "unat n = min ((?S + ?T - 1) div ?T) (nat (2 * omp_get_max_threads ev))"
    unfolding n_eq by (rule unat_plan_numBlocks[OF big t0 sz p])
  have "2 * ?T \<le> ?S + ?T - 1"
    using ST by simp
  then have "2 * ?T div ?T \<le> (?S + ?T - 1) div ?T"
    by (rule div_le_mono)
  then have c2: "2 \<le> (?S + ?T - 1) div ?T"
    using T by simp
  have n2: "2 \<le> unat n"
    using c2 p(1) by (simp add: un)
  then have n0: "n \<noteq> 0"
    by (auto simp: unat_eq_0[symmetric] simp del: unat_eq_0)
  show "plan_defined cfg ev sz"
    using t0 p n0 by (simp add: plan_defined_def n_def)
  have nle: "unat n \<le> (?S + ?T - 1) div ?T"
    by (simp add: un)
  have "unat n \<le> nat (2 * omp_get_max_threads ev)"
    by (simp add: un)
  with thr have nT: "unat n - 1 \<le> ?T"
    by simp
  have "unat n < 2 ^ 31"
    using p \<open>unat n \<le> nat (2 * omp_get_max_threads ev)\<close> by simp
  with sz have "?S + unat n \<le> 2 ^ 64"
    by simp
  with n0 have b: "unat (plan_blockSize sz n) = (?S + unat n - 1) div unat n"
    unfolding plan_blockSize_def by (rule unat_ceil_div)
  have "(unat n - 1) * unat (plan_blockSize sz n) \<le> ?S"
    by (rule last_offset_bound[OF T ST n2 nle nT b])
  then show "(unat (archive_numBlocks cfg ev sz) - 1) * unat (archive_blockSize cfg ev sz) \<le> unat sz"
    by (simp add: archive_blockSize_def n_def)
qed

lemma compress_writes_archive:
  assumes perm: "mset (taskloop_order ev (unat (archive_numBlocks cfg ev sz)))
                 = mset [0..<unat (archive_numBlocks cfg ev sz)]"
    and len: "length ptr = unat sz"
    and pd: "plan_defined cfg ev sz"
    and last: "(unat (archive_numBlocks cfg ev sz) - 1) * unat (archive_blockSize cfg ev sz) \<le> unat sz"
    and codec: "\<forall>src. length src \<le> unat sz
                  \<longrightarrow> compress ev src (compressBound ev (word_of_nat (length src))) \<noteq> None"
    and opens: "open_ok ev (fname @ SUFFIX cfg)"
  shows "compressDataParallel cfg ev ptr sz fname
           = Inr \<lparr>returned = True,
                  written = Some (fname @ SUFFIX cfg, expected_archive cfg ev ptr sz),
                  unlinked = (if REMOVE_ORIGIN cfg then Some fname else None)\<rparr>"
proof -
  define n where "n = archive_numBlocks cfg ev sz"
  define bs where "bs = archive_blockSize cfg ev sz"
  have n0: "n \<noteq> 0"
    using pd by (simp add: n_def archive_numBlocks_nonzero)
  have srcs: "\<forall>k<unat n. block_source ptr sz n bs k \<noteq> None"
    using last by (intro blocks_readable[OF n0 len]) (simp add: n_def bs_def)
  have outs: "\<forall>k<unat n. block_output ev ptr sz n bs k \<noteq> None"
  proof (intro allI impI)
    fix k assume "k < unat n"
    with srcs obtain src where s: "block_source ptr sz n bs k = Some src"
      by auto
    then have l: "length src = unat (currentBlockSize sz n bs (word_of_nat k))"
      and "length src \<le> length ptr"
      by (auto simp: block_source_def read_bytes_def split: if_splits)
    then have "length src \<le> unat sz"
      using len by simp
    moreover from l have "word_of_nat (length src) = currentBlockSize sz n bs (word_of_nat k)"
      by simp
    ultimately have "compress ev src (compressBound ev (currentBlockSize sz n bs (word_of_nat k))) \<noteq> None"
      using codec by metis
    then show "block_output ev ptr sz n bs k \<noteq> None"
      by (simp add: block_output_def s)
  qed
  show ?thesis
    unfolding compressDataParallel_eq[OF perm pd]
    using srcs outs opens by (auto simp: n_def bs_def)
qed

section \<open>The archive that is written\<close>

lemma sample_compress:
  "compressDataParallel (sample_config 4) (stored_env 4 (\<lambda>n. rev [0..<n])) ten_bytes 10 ''f''
     = Inr \<lparr>returned = True, written = Some (''f.zip'', sample_archive), unlinked = None\<rparr>"
  by code_simp

lemma take_archive_bytes: "take 8 (archive_bytes n infos blocks) = encode_size_t n"
  by (simp add: archive_bytes_def length_encode_size_t)

lemma written_archive_header:
  assumes "compressDataParallel cfg ev ptr sz fname = Inr eff"
    and "written eff = Some (outfile, bytes)"
  shows "take 8 bytes = encode_size_t (archive_numBlocks cfg ev sz)"
    and "plan_defined cfg ev sz"
    and "outfile = fname @ SUFFIX cfg"
    and "returned eff"
  using assms
  by (auto simp: compressDataParallel_def archive_numBlocks_def plan_defined_def Let_def
      failed_def take_archive_bytes split: if_splits sum.splits option.splits)

text \<open>
  C2. The block count in the first eight bytes of a written archive is 1 when the input
  is no longer than the threshold, and otherwise the smaller of \<open>\<lceil>S / T\<rceil>\<close> and twice the
  answer of \<^verbatim>\<open>omp_get_max_threads()\<close>. The input is an object in memory, so its size is
  below \<open>2^63\<close> (\<^verbatim>\<open>PTRDIFF_MAX\<close>), and the runtime reports at least one thread.
\<close>

theorem archive_records_block_count:
  assumes "compressDataParallel cfg ev ptr sz fname = Inr eff"
    and "written eff = Some (outfile, bytes)"
    and "unat sz < 2 ^ 63"
    and "0 < omp_get_max_threads ev"
  shows "unat (decode_size_t (take 8 bytes)) =
           (if sz \<le> BIG_FILE_SIZE cfg then 1
            else min (nat \<lceil>real (unat sz) / real (unat (BIG_FILE_SIZE cfg))\<rceil>)
                     (nat (2 * omp_get_max_threads ev)))"
proof -
  have hd: "decode_size_t (take 8 bytes) = archive_numBlocks cfg ev sz"
    using written_archive_header(1)[OF assms(1,2)] by (simp add: decode_encode_size_t)
  show ?thesis
  proof (cases "sz \<le> BIG_FILE_SIZE cfg")
    case True
    then show ?thesis by (simp add: hd archive_numBlocks_def)
  next
    case False
    then have lt: "BIG_FILE_SIZE cfg < sz" by simp
    from written_archive_header(2)[OF assms(1,2)] False
    have t0: "BIG_FILE_SIZE cfg \<noteq> 0" and p: "omp_get_max_threads ev * 2 < 2 ^ 31"
      by (simp_all add: plan_defined_def)
    have tpos: "0 < unat (BIG_FILE_SIZE cfg)"
      using t0 by (simp add: unat_gt_0)
    show ?thesis
      using False unat_plan_numBlocks[OF lt t0 assms(3,4) p] ceil_div_nat[OF tpos, of "unat sz"]
      by (simp add: hd archive_numBlocks_def)
  qed
qed

theorem archive_records_block_count_witness:
  "compressDataParallel (sample_config 4) (stored_env 4 (\<lambda>n. rev [0..<n])) ten_bytes 10 ''f''
     = Inr \<lparr>returned = True, written = Some (''f.zip'', sample_archive), unlinked = None\<rparr>
   \<and> unat (10 :: size_t) < 2 ^ 63
   \<and> 0 < omp_get_max_threads (stored_env 4 (\<lambda>n. rev [0..<n]))
   \<and> unat (decode_size_t (take 8 sample_archive)) = 3"
proof -
  have p: "0 < omp_get_max_threads (stored_env 4 (\<lambda>n. rev [0..<n]))"
    by (simp add: stored_env_def)
  have s: "unat (10 :: size_t) < 2 ^ 63"
    by simp
  have c: "nat \<lceil>real (unat (10::size_t)) / real (unat (4::size_t))\<rceil> = 3"
    by (simp add: ceiling_divide_eq_div_numeral)
  have "unat (decode_size_t (take 8 sample_archive)) = 3"
    using archive_records_block_count[OF sample_compress _ s p, of "''f.zip''" sample_archive] c
    by (simp add: sample_config_def stored_env_def word_le_nat_alt)
  with sample_compress p s show ?thesis by blast
qed

lemma expected_archive_prefix:
  "\<exists>rest. expected_archive cfg ev ptr sz =
     encode_size_t (archive_numBlocks cfg ev sz)
     @ concat (map encode_DataBlock
         (map (block_descriptor ev ptr sz (archive_numBlocks cfg ev sz) (archive_blockSize cfg ev sz))
            [0..<unat (archive_numBlocks cfg ev sz)]))
     @ rest"
  by (simp add: expected_archive_def archive_bytes_def Let_def map_nth_upt)

lemma written_expected:
  assumes "compressDataParallel cfg ev ptr sz fname = Inr eff"
    and "written eff = Some (outfile, bytes)"
    and "mset (taskloop_order ev (unat (archive_numBlocks cfg ev sz)))
           = mset [0..<unat (archive_numBlocks cfg ev sz)]"
  shows "bytes = expected_archive cfg ev ptr sz"
    and "\<forall>k<unat (archive_numBlocks cfg ev sz).
           block_source ptr sz (archive_numBlocks cfg ev sz) (archive_blockSize cfg ev sz) k \<noteq> None"
    and "\<forall>k<unat (archive_numBlocks cfg ev sz).
           block_output ev ptr sz (archive_numBlocks cfg ev sz) (archive_blockSize cfg ev sz) k \<noteq> None"
    and "eff = \<lparr>returned = True, written = Some (fname @ SUFFIX cfg, expected_archive cfg ev ptr sz),
                unlinked = (if REMOVE_ORIGIN cfg then Some fname else None)\<rparr>"
proof -
  note pd = written_archive_header(2)[OF assms(1,2)]
  note eq = compressDataParallel_eq[OF assms(3) pd, of ptr fname]
  from assms(1,2) eq
  show "bytes = expected_archive cfg ev ptr sz"
    by (auto simp: failed_def split: if_splits)
  from assms(1,2) eq
  show "\<forall>k<unat (archive_numBlocks cfg ev sz).
           block_source ptr sz (archive_numBlocks cfg ev sz) (archive_blockSize cfg ev sz) k \<noteq> None"
    by (auto simp: failed_def split: if_splits)
  from assms(1,2) eq
  show "\<forall>k<unat (archive_numBlocks cfg ev sz).
           block_output ev ptr sz (archive_numBlocks cfg ev sz) (archive_blockSize cfg ev sz) k \<noteq> None"
    by (auto simp: failed_def split: if_splits)
  from assms(1,2) eq
  show "eff = \<lparr>returned = True, written = Some (fname @ SUFFIX cfg, expected_archive cfg ev ptr sz),
                unlinked = (if REMOVE_ORIGIN cfg then Some fname else None)\<rparr>"
    by (auto simp: failed_def split: if_splits)
qed

text \<open>
  C3. In every archive that is written, the descriptor table, read the way the
  decompressor reads it, has original sizes that add up, as natural numbers, to the size
  of the input buffer. This holds for every order in which the tasks run.
\<close>

theorem descriptor_sizes_sum_to_input_size:
  assumes "compressDataParallel cfg ev ptr sz fname = Inr eff"
    and "written eff = Some (outfile, bytes)"
    and "mset (taskloop_order ev (unat (archive_numBlocks cfg ev sz)))
           = mset [0..<unat (archive_numBlocks cfg ev sz)]"
    and "length ptr = unat sz"
  shows "\<exists>infos. read_blockInfos bytes 8 (unat (decode_size_t (take 8 bytes))) = Some infos
               \<and> (\<Sum>b\<leftarrow>infos. unat (originalSize b)) = unat sz"
proof -
  define n where "n = archive_numBlocks cfg ev sz"
  define bs where "bs = archive_blockSize cfg ev sz"
  define infos where "infos = map (block_descriptor ev ptr sz n bs) [0..<unat n]"
  have n0: "n \<noteq> 0"
    using written_archive_header(2)[OF assms(1,2)] by (simp add: n_def archive_numBlocks_nonzero)
  have hd: "decode_size_t (take 8 bytes) = n"
    using written_archive_header(1)[OF assms(1,2)] by (simp add: decode_encode_size_t n_def)
  from written_expected(1)[OF assms(1-3)] expected_archive_prefix[of cfg ev ptr sz]
  obtain rest where b: "bytes = encode_size_t n @ concat (map encode_DataBlock infos) @ rest"
    by (auto simp: n_def bs_def infos_def)
  have "read_blockInfos (encode_size_t n @ concat (map encode_DataBlock infos) @ rest)
          (length (encode_size_t n)) (length infos) = Some infos"
    by (rule read_blockInfos_encoded)
  then have r: "read_blockInfos bytes 8 (unat n) = Some infos"
    by (simp add: b length_encode_size_t infos_def)
  have rd: "\<forall>k<unat n. block_source ptr sz n bs k \<noteq> None"
    using written_expected(2)[OF assms(1-3)] by (simp add: n_def bs_def)
  have "(\<Sum>b\<leftarrow>infos. unat (originalSize b))
          = (\<Sum>k\<leftarrow>[0..<unat n]. unat (currentBlockSize sz n bs (word_of_nat k)))"
    by (simp add: infos_def block_descriptor_def o_def)
  also have "\<dots> = unat sz"
    by (rule sum_originalSize_blocks[OF n0 rd assms(4)])
  finally show ?thesis
    using r hd by blast
qed

lemma sample_order: "mset (rev [0..<n]) = mset [0..<n]"
  by simp

theorem descriptor_sizes_sum_to_input_size_witness:
  "compressDataParallel (sample_config 4) (stored_env 4 (\<lambda>n. rev [0..<n])) ten_bytes 10 ''f''
     = Inr \<lparr>returned = True, written = Some (''f.zip'', sample_archive), unlinked = None\<rparr>
   \<and> length ten_bytes = unat (10 :: size_t)
   \<and> (\<exists>infos. read_blockInfos sample_archive 8 (unat (decode_size_t (take 8 sample_archive)))
                  = Some infos
              \<and> (\<Sum>b\<leftarrow>infos. unat (originalSize b)) = unat (10 :: size_t))"
proof -
  have l: "length ten_bytes = unat (10 :: size_t)"
    by (simp add: ten_bytes_def)
  have o: "mset (taskloop_order (stored_env 4 (\<lambda>n. rev [0..<n]))
                  (unat (archive_numBlocks (sample_config 4) (stored_env 4 (\<lambda>n. rev [0..<n])) 10)))
           = mset [0..<unat (archive_numBlocks (sample_config 4) (stored_env 4 (\<lambda>n. rev [0..<n])) 10)]"
    by (simp add: stored_env_def)
  from descriptor_sizes_sum_to_input_size[OF sample_compress _ o l, of "''f.zip''" sample_archive]
    sample_compress l
  show ?thesis by simp
qed

lemma order_irrelevant_numBlocks:
  "archive_numBlocks cfg (ev\<lparr>taskloop_order := ord\<rparr>) sz = archive_numBlocks cfg ev sz"
  by (simp add: archive_numBlocks_def)

lemma order_irrelevant_blockSize:
  "archive_blockSize cfg (ev\<lparr>taskloop_order := ord\<rparr>) sz = archive_blockSize cfg ev sz"
  by (simp add: archive_blockSize_def order_irrelevant_numBlocks)

lemma order_irrelevant_plan:
  "plan_defined cfg (ev\<lparr>taskloop_order := ord\<rparr>) sz = plan_defined cfg ev sz"
  by (simp add: plan_defined_def order_irrelevant_numBlocks)

lemma order_irrelevant_output:
  "block_output (ev\<lparr>taskloop_order := ord\<rparr>) ptr sz n bs k = block_output ev ptr sz n bs k"
  by (simp add: block_output_def split: option.splits)

lemma order_irrelevant_descriptor:
  "block_descriptor (ev\<lparr>taskloop_order := ord\<rparr>) ptr sz n bs = block_descriptor ev ptr sz n bs"
  by (rule ext) (simp add: block_descriptor_def order_irrelevant_output)

lemma order_irrelevant_archive:
  "expected_archive cfg (ev\<lparr>taskloop_order := ord\<rparr>) ptr sz = expected_archive cfg ev ptr sz"
  by (simp add: expected_archive_def order_irrelevant_numBlocks order_irrelevant_blockSize
      order_irrelevant_output order_irrelevant_descriptor)

lemmas order_irrelevant =
  order_irrelevant_numBlocks order_irrelevant_blockSize order_irrelevant_plan
  order_irrelevant_output order_irrelevant_descriptor order_irrelevant_archive

lemma compress_order_irrelevant:
  assumes "mset (taskloop_order ev (unat (archive_numBlocks cfg ev sz)))
             = mset [0..<unat (archive_numBlocks cfg ev sz)]"
  shows "compressDataParallel cfg (ev\<lparr>taskloop_order := (\<lambda>n. [0..<n])\<rparr>) ptr sz fname
           = compressDataParallel cfg ev ptr sz fname"
proof (cases "plan_defined cfg ev sz")
  case True
  define ev' where "ev' = ev\<lparr>taskloop_order := (\<lambda>n. [0..<n])\<rparr>"
  have p': "mset (taskloop_order ev' (unat (archive_numBlocks cfg ev' sz)))
              = mset [0..<unat (archive_numBlocks cfg ev' sz)]"
    by (simp add: ev'_def)
  have d': "plan_defined cfg ev' sz"
    using True by (simp add: ev'_def order_irrelevant)
  have o: "open_ok ev' = open_ok ev"
    by (simp add: ev'_def)
  have "compressDataParallel cfg ev' ptr sz fname = compressDataParallel cfg ev ptr sz fname"
    unfolding compressDataParallel_eq[OF p' d'] compressDataParallel_eq[OF assms True] o
    unfolding ev'_def order_irrelevant ..
  then show ?thesis
    by (simp only: ev'_def)
next
  case False
  then show ?thesis
    by (auto simp: plan_defined_def compressDataParallel_def archive_numBlocks_def Let_def)
qed

text \<open>
  C5. A written archive is the eight-byte block count, then one descriptor per block
  with \<^verbatim>\<open>blockIndex\<close> 0, 1, ... in this order, then the compressed payloads in the same
  order, the payload of block \<open>i\<close> being what the codec returned for block \<open>i\<close> and as long
  as its descriptor says. The order in which the runtime runs the tasks has no
  influence: the call leaves the same result when the tasks run in ascending order.
  The codec is taken to report no more bytes than the output buffer holds.
\<close>

theorem archive_layout_follows_block_index:
  assumes "compressDataParallel cfg ev ptr sz fname = Inr eff"
    and "written eff = Some (outfile, bytes)"
    and "mset (taskloop_order ev (unat (archive_numBlocks cfg ev sz)))
           = mset [0..<unat (archive_numBlocks cfg ev sz)]"
    and "\<forall>src cap out. compress ev src cap = Some out \<longrightarrow> length out \<le> unat cap"
  shows "\<exists>infos payloads.
           bytes = encode_size_t (archive_numBlocks cfg ev sz)
                   @ concat (map encode_DataBlock infos) @ concat payloads
         \<and> length infos = unat (archive_numBlocks cfg ev sz)
         \<and> length payloads = unat (archive_numBlocks cfg ev sz)
         \<and> (\<forall>i<unat (archive_numBlocks cfg ev sz).
               blockIndex (infos ! i) = word_of_nat i
             \<and> block_output ev ptr sz (archive_numBlocks cfg ev sz) (archive_blockSize cfg ev sz) i
                 = Some (payloads ! i)
             \<and> unat (compressedSize (infos ! i)) = length (payloads ! i))
         \<and> compressDataParallel cfg (ev\<lparr>taskloop_order := (\<lambda>n. [0..<n])\<rparr>) ptr sz fname = Inr eff"
proof -
  define n where "n = archive_numBlocks cfg ev sz"
  define bs where "bs = archive_blockSize cfg ev sz"
  define infos where "infos = map (block_descriptor ev ptr sz n bs) [0..<unat n]"
  define payloads where "payloads = map (\<lambda>k. the (block_output ev ptr sz n bs k)) [0..<unat n]"
  have out: "\<forall>k<unat n. block_output ev ptr sz n bs k \<noteq> None"
    using written_expected(3)[OF assms(1-3)] by (simp add: n_def bs_def)
  have len: "length out \<le> unat cap" if "compress ev src cap = Some out" for src cap out
    using assms(4) that by blast
  have size: "unat (compressedSize (infos ! i)) = length (payloads ! i)"
    and pay: "block_output ev ptr sz n bs i = Some (payloads ! i)"
    and idx: "blockIndex (infos ! i) = word_of_nat i" if i: "i < unat n" for i
  proof -
    from out i obtain o' where o': "block_output ev ptr sz n bs i = Some o'"
      by auto
    then obtain src cap where "compress ev src cap = Some o'"
      by (auto simp: block_output_def split: option.splits)
    from len[OF this] have "length o' < 2 ^ 64"
      using unat_size_t_less[of cap] by simp
    then show "unat (compressedSize (infos ! i)) = length (payloads ! i)"
      using i o' by (simp add: infos_def payloads_def block_descriptor_def unat_of_nat)
    show "block_output ev ptr sz n bs i = Some (payloads ! i)"
      using i o' by (simp add: payloads_def)
    show "blockIndex (infos ! i) = word_of_nat i"
      using i by (simp add: infos_def block_descriptor_def)
  qed
  have "bytes = archive_bytes n infos payloads"
    using written_expected(1)[OF assms(1-3)]
    by (simp add: expected_archive_def Let_def infos_def payloads_def flip: n_def bs_def)
  also have "\<dots> = encode_size_t n @ concat (map encode_DataBlock infos) @ concat payloads"
  proof (rule archive_bytes_eq)
    show "length infos = unat n" by (simp add: infos_def)
    show "length payloads = unat n" by (simp add: payloads_def)
    show "\<forall>i<unat n. length (payloads ! i) = unat (compressedSize (infos ! i))"
      using size by simp
  qed
  finally have layout: "bytes = encode_size_t n @ concat (map encode_DataBlock infos) @ concat payloads" .
  have ord: "compressDataParallel cfg (ev\<lparr>taskloop_order := (\<lambda>n. [0..<n])\<rparr>) ptr sz fname = Inr eff"
    using compress_order_irrelevant[OF assms(3), of ptr fname] assms(1) by simp
  have li: "length infos = unat n" and lp: "length payloads = unat n"
    by (simp_all add: infos_def payloads_def)
  have "\<forall>i<unat n. blockIndex (infos ! i) = word_of_nat i
             \<and> block_output ev ptr sz n bs i = Some (payloads ! i)
             \<and> unat (compressedSize (infos ! i)) = length (payloads ! i)"
    using size pay idx by blast
  with layout li lp ord show ?thesis
    unfolding n_def[symmetric] bs_def[symmetric] by blast
qed


lemma stored_compress_bounded:
  "\<forall>src cap out. compress (stored_env p ord) src cap = Some out \<longrightarrow> length out \<le> unat cap"
  by (simp add: stored_env_def)

theorem archive_layout_follows_block_index_witness:
  "compressDataParallel (sample_config 4) (stored_env 4 (\<lambda>n. rev [0..<n])) ten_bytes 10 ''f''
     = Inr \<lparr>returned = True, written = Some (''f.zip'', sample_archive), unlinked = None\<rparr>
   \<and> compressDataParallel (sample_config 4)
         ((stored_env 4 (\<lambda>n. rev [0..<n]))\<lparr>taskloop_order := (\<lambda>n. [0..<n])\<rparr>) ten_bytes 10 ''f''
     = Inr \<lparr>returned = True, written = Some (''f.zip'', sample_archive), unlinked = None\<rparr>"
proof -
  have o: "mset (taskloop_order (stored_env 4 (\<lambda>n. rev [0..<n]))
                  (unat (archive_numBlocks (sample_config 4) (stored_env 4 (\<lambda>n. rev [0..<n])) 10)))
           = mset [0..<unat (archive_numBlocks (sample_config 4) (stored_env 4 (\<lambda>n. rev [0..<n])) 10)]"
    by (simp add: stored_env_def)
  from archive_layout_follows_block_index[OF sample_compress _ o stored_compress_bounded,
      of "''f.zip''" sample_archive] sample_compress
  show ?thesis by auto
qed

text \<open>
  C6. When the plan is defined and every block lies in the input buffer, a failing
  codec call on any block, in either mode, or a failure to open the output file makes
  the call return \<^verbatim>\<open>false\<close> with no file written and none unlinked.
\<close>

theorem failed_codec_or_open_writes_nothing:
  assumes "mset (taskloop_order ev (unat (archive_numBlocks cfg ev sz)))
             = mset [0..<unat (archive_numBlocks cfg ev sz)]"
    and "plan_defined cfg ev sz"
    and "\<forall>k<unat (archive_numBlocks cfg ev sz).
           block_source ptr sz (archive_numBlocks cfg ev sz) (archive_blockSize cfg ev sz) k \<noteq> None"
    and "(\<exists>k<unat (archive_numBlocks cfg ev sz).
            block_output ev ptr sz (archive_numBlocks cfg ev sz) (archive_blockSize cfg ev sz) k = None)
         \<or> \<not> open_ok ev (fname @ SUFFIX cfg)"
  shows "compressDataParallel cfg ev ptr sz fname
           = Inr \<lparr>returned = False, written = None, unlinked = None\<rparr>"
  using assms(3,4) unfolding compressDataParallel_eq[OF assms(1,2)]
  by (auto simp: failed_def)

lemma tight_plan: "archive_numBlocks (sample_config 4) (tight_env 4 (\<lambda>n. rev [0..<n])) 10 = 3"
  by code_simp

lemma tight_blockSize: "archive_blockSize (sample_config 4) (tight_env 4 (\<lambda>n. rev [0..<n])) 10 = 4"
  by code_simp

theorem failed_codec_or_open_writes_nothing_witness:
  "plan_defined (sample_config 4) (tight_env 4 (\<lambda>n. rev [0..<n])) 10
   \<and> block_output (tight_env 4 (\<lambda>n. rev [0..<n])) ten_bytes 10 3 4 0 = None
   \<and> block_output (tight_env 4 (\<lambda>n. rev [0..<n])) ten_bytes 10 3 4 2 = Some [9, 10]
   \<and> compressDataParallel (sample_config 4) (tight_env 4 (\<lambda>n. rev [0..<n])) ten_bytes 10 ''f''
       = Inr \<lparr>returned = False, written = None, unlinked = None\<rparr>"
proof -
  let ?ev = "tight_env 4 (\<lambda>n. rev [0..<n])"
  have o: "mset (taskloop_order ?ev (unat (archive_numBlocks (sample_config 4) ?ev 10)))
           = mset [0..<unat (archive_numBlocks (sample_config 4) ?ev 10)]"
    by (simp add: stored_env_def tight_env_def)
  have p: "plan_defined (sample_config 4) ?ev 10"
    by code_simp
  have "\<forall>k\<in>set [0..<3]. block_source ten_bytes 10 3 4 k \<noteq> None"
    by code_simp
  then have s: "\<forall>k<unat (archive_numBlocks (sample_config 4) ?ev 10).
           block_source ten_bytes 10 (archive_numBlocks (sample_config 4) ?ev 10)
             (archive_blockSize (sample_config 4) ?ev 10) k \<noteq> None"
    by (simp add: tight_plan tight_blockSize)
  have b0: "block_output ?ev ten_bytes 10 3 4 0 = None"
    by code_simp
  have b2: "block_output ?ev ten_bytes 10 3 4 2 = Some [9, 10]"
    by code_simp
  from b0 have f: "(\<exists>k<unat (archive_numBlocks (sample_config 4) ?ev 10).
            block_output ?ev ten_bytes 10 (archive_numBlocks (sample_config 4) ?ev 10)
              (archive_blockSize (sample_config 4) ?ev 10) k = None)
         \<or> \<not> open_ok ?ev (''f'' @ SUFFIX (sample_config 4))"
    by (auto simp: tight_plan tight_blockSize intro: exI[of _ 0])
  from failed_codec_or_open_writes_nothing[OF o p s f] p b0 b2
  show ?thesis by simp
qed

section \<open>The split into blocks\<close>

text \<open>
  C4 fails on the code. With ten bytes, the threshold 1 and four threads, the block count
  is capped at 8 and the block size is 2, so the last block starts at offset 14, behind
  the end of the buffer: \<^verbatim>\<open>size - offset\<close> wraps around to \<open>2^64 - 4\<close> instead of being a
  remainder, and blocks 5 and 6, of full length, start at or behind the end of the
  buffer too. (The last offset stays inside the buffer whenever the threshold is at
  least twice the thread count minus one: \<open>plan_in_range\<close>.)
\<close>

theorem last_block_size_wraps_around:
  "\<not> (10 :: size_t) \<le> 1
   \<and> plan_numBlocks 1 4 10 = 8
   \<and> plan_blockSize 10 8 = 2
   \<and> block_offset 2 7 = 14
   \<and> currentBlockSize 10 8 2 7 = 18446744073709551612
   \<and> unat (block_offset 2 7) > unat (10 :: size_t)
   \<and> unat (block_offset 2 5) + unat (currentBlockSize 10 8 2 5) > unat (10 :: size_t)
   \<and> unat (block_offset 2 6) + unat (currentBlockSize 10 8 2 6) > unat (10 :: size_t)"
  by (simp add: plan_numBlocks_def plan_blockSize_def currentBlockSize_def block_offset_def
      word_le_nat_alt word_less_nat_alt)

section \<open>The taskloop of the decompressor\<close>

lemma unat_foldl_originalSize:
  "unat a + (\<Sum>b\<leftarrow>xs. unat (originalSize b)) < 2 ^ 64 \<Longrightarrow>
   unat (foldl (\<lambda>total block. total + originalSize block) a xs)
     = unat a + (\<Sum>b\<leftarrow>xs. unat (originalSize b))"
proof (induction xs arbitrary: a)
  case Nil
  then show ?case by simp
next
  case (Cons x xs)
  from Cons.prems have "unat a + unat (originalSize x) < 2 ^ LENGTH(64)"
    by simp
  then have s: "unat (a + originalSize x) = unat a + unat (originalSize x)"
    by (simp only: unat_add_lem[THEN iffD1])
  with Cons.prems have "unat (a + originalSize x) + (\<Sum>b\<leftarrow>xs. unat (originalSize b)) < 2 ^ 64"
    by simp
  from Cons.IH[OF this] s show ?case
    by simp
qed

lemma unat_sum_originalSize:
  "(\<Sum>b\<leftarrow>xs. unat (originalSize b)) < 2 ^ 64 \<Longrightarrow>
   unat (sum_originalSize xs) = (\<Sum>b\<leftarrow>xs. unat (originalSize b))"
  using unat_foldl_originalSize[of 0 xs] by (simp add: sum_originalSize_def)

lemma sum_list_take_le:
  fixes ss :: "nat list"
  shows "sum_list (take k ss) \<le> sum_list ss"
proof -
  have "sum_list ss = sum_list (take k ss) + sum_list (drop k ss)"
    by (metis append_take_drop_id sum_list_append)
  then show ?thesis by simp
qed

lemma sum_list_take_Suc:
  fixes ss :: "nat list"
  assumes "k < length ss"
  shows "sum_list (take (Suc k) ss) = sum_list (take k ss) + ss ! k"
  using assms by (simp add: take_Suc_conv_app_nth)

lemma sum_list_take_mono:
  fixes ss :: "nat list"
  assumes "j \<le> k"
  shows "sum_list (take j ss) \<le> sum_list (take k ss)"
proof -
  have "take j ss = take j (take k ss)"
    using assms by (simp add: min_def)
  then show ?thesis
    using sum_list_take_le[of j "take k ss"] by simp
qed

lemma output_offset_nat:
  assumes "(\<Sum>b\<leftarrow>infos. unat (originalSize b)) < 2 ^ 64"
  shows "output_offset infos k = sum_list (take k (map (\<lambda>b. unat (originalSize b)) infos))"
proof -
  have "(\<Sum>b\<leftarrow>take k infos. unat (originalSize b)) \<le> (\<Sum>b\<leftarrow>infos. unat (originalSize b))"
    using sum_list_take_le[of k "map (\<lambda>b. unat (originalSize b)) infos"] by (simp add: take_map)
  with assms have "(\<Sum>b\<leftarrow>take k infos. unat (originalSize b)) < 2 ^ 64"
    by simp
  then show ?thesis
    by (simp add: output_offset_def unat_sum_originalSize take_map)
qed

lemma regions_ordered:
  assumes "(\<Sum>b\<leftarrow>infos. unat (originalSize b)) < 2 ^ 64" "j < k" "k \<le> length infos"
  shows "output_offset infos j + unat (originalSize (infos ! j)) \<le> output_offset infos k"
proof -
  let ?ss = "map (\<lambda>b. unat (originalSize b)) infos"
  from assms(2,3) have j: "j < length ?ss" by simp
  have "sum_list (take j ?ss) + ?ss ! j = sum_list (take (Suc j) ?ss)"
    using sum_list_take_Suc[OF j] by simp
  also have "\<dots> \<le> sum_list (take k ?ss)"
    using assms(2) by (intro sum_list_take_mono) simp
  finally show ?thesis
    using j by (simp add: output_offset_nat[OF assms(1)])
qed

lemma region_inside:
  assumes "(\<Sum>b\<leftarrow>infos. unat (originalSize b)) < 2 ^ 64" "k < length infos"
  shows "output_offset infos k + unat (originalSize (infos ! k)) \<le> (\<Sum>b\<leftarrow>infos. unat (originalSize b))"
proof -
  have "output_offset infos k + unat (originalSize (infos ! k)) \<le> output_offset infos (length infos)"
    using assms by (intro regions_ordered) simp_all
  then show ?thesis
    by (simp add: output_offset_nat[OF assms(1)])
qed

lemma length_write_bytes:
  "p + length bs \<le> length mem \<Longrightarrow> length (write_bytes mem p bs) = length mem"
  by (simp add: write_bytes_def)

lemma region_write_before:
  assumes "o' + s \<le> p" "p + length bs \<le> length mem"
  shows "take s (drop o' (write_bytes mem p bs)) = take s (drop o' mem)"
  using assms by (simp add: write_bytes_def take_drop)

lemma region_write_after:
  assumes "p + length bs \<le> o'" "p + length bs \<le> length mem"
  shows "take s (drop o' (write_bytes mem p bs)) = take s (drop o' mem)"
proof -
  from assms obtain q where q: "o' = p + length bs + q"
    by (metis le_Suc_ex)
  show ?thesis
    using assms by (simp add: write_bytes_def q add.commute)
qed

lemma region_write_same:
  assumes "length bs \<le> s" "p + s \<le> length mem"
  shows "take s (drop p (write_bytes mem p bs)) = bs @ drop (length bs) (take s (drop p mem))"
  using assms by (simp add: write_bytes_def drop_take add.commute)

lemma decompress_task_eq:
  assumes "k < unat (n::size_t)" "length infos = unat n"
  shows "decompress_task ev mem infos (block_pointers (8 + 24 * unat n) infos) (word_of_nat k) st =
     (case payload_source mem infos k of
        None \<Rightarrow> Inl OutOfBounds
      | Some src \<Rightarrow>
          (case block_decoded ev mem infos k of
             None \<Rightarrow> Inr (st\<lparr>decompressionSuccess := False\<rparr>)
           | Some d \<Rightarrow>
               if output_offset infos k + length d \<le> length (decompressed_data st)
               then Inr (st\<lparr>decompressed_data :=
                            write_bytes (decompressed_data st) (output_offset infos k) d\<rparr>)
               else Inl OutOfBounds))"
  using assms
  by (simp add: decompress_task_def decompressBlock_def payload_source_def block_decoded_def
      output_offset_def unat_of_nat_index[OF assms(1)] Let_def split: option.splits)

lemma taskloop_decompress_fault_source:
  assumes "\<forall>k\<in>set ks. k < unat (n::size_t)" "length infos = unat n"
    and "\<exists>k\<in>set ks. payload_source mem infos k = None"
  shows "\<exists>f. taskloop (decompress_task ev mem infos (block_pointers (8 + 24 * unat n) infos)) ks st = Inl f"
  using assms(1,3)
proof (induction ks arbitrary: st)
  case Nil
  then show ?case by simp
next
  case (Cons k ks)
  from Cons.prems(1) have k: "k < unat n" and ks: "\<forall>k\<in>set ks. k < unat n"
    by simp_all
  show ?case
  proof (cases "payload_source mem infos k = None")
    case True
    then show ?thesis
      by (simp add: decompress_task_eq[OF k assms(2)])
  next
    case False
    with Cons.prems(2) have ex: "\<exists>k\<in>set ks. payload_source mem infos k = None"
      by auto
    show ?thesis
      using Cons.IH[OF ks ex] False
      by (auto simp: decompress_task_eq[OF k assms(2)] split: option.splits)
  qed
qed

lemma taskloop_decompress_run:
  assumes n: "length infos = unat (n::size_t)"
    and total: "(\<Sum>b\<leftarrow>infos. unat (originalSize b)) < 2 ^ 64"
    and cap: "\<forall>k<unat n. \<forall>d. block_decoded ev mem infos k = Some d
                \<longrightarrow> length d \<le> unat (originalSize (infos ! k))"
    and d: "distinct ks"
    and ks: "\<forall>k\<in>set ks. k < unat n \<and> payload_source mem infos k \<noteq> None"
    and len: "length (decompressed_data st) = (\<Sum>b\<leftarrow>infos. unat (originalSize b))"
  shows "\<exists>st'. taskloop (decompress_task ev mem infos (block_pointers (8 + 24 * unat n) infos)) ks st
               = Inr st'
           \<and> length (decompressed_data st') = (\<Sum>b\<leftarrow>infos. unat (originalSize b))
           \<and> (\<forall>j<unat n. output_region infos j (decompressed_data st') =
                 (if j \<in> set ks
                  then (case block_decoded ev mem infos j of
                          None \<Rightarrow> output_region infos j (decompressed_data st)
                        | Some d \<Rightarrow> d @ drop (length d) (output_region infos j (decompressed_data st)))
                  else output_region infos j (decompressed_data st)))
           \<and> decompressionSuccess st' =
                (decompressionSuccess st \<and> (\<forall>k\<in>set ks. block_decoded ev mem infos k \<noteq> None))"
  using d ks len
proof (induction ks arbitrary: st)
  case Nil
  then show ?case by simp
next
  case (Cons k ks)
  from Cons.prems(2) have k: "k < unat n" and src: "payload_source mem infos k \<noteq> None"
    and ks: "\<forall>k\<in>set ks. k < unat n \<and> payload_source mem infos k \<noteq> None"
    by simp_all
  from Cons.prems(1) have nk: "k \<notin> set ks" and dks: "distinct ks"
    by simp_all
  let ?T = "(\<Sum>b\<leftarrow>infos. unat (originalSize b))"
  let ?data = "decompressed_data st"
  from k n have kl: "k < length infos" by simp
  note inside = region_inside[OF total kl]
  define st1 where "st1 =
     (case block_decoded ev mem infos k of
        None \<Rightarrow> st\<lparr>decompressionSuccess := False\<rparr>
      | Some d \<Rightarrow> st\<lparr>decompressed_data := write_bytes ?data (output_offset infos k) d\<rparr>)"
  have fits: "length d \<le> unat (originalSize (infos ! k))" if "block_decoded ev mem infos k = Some d" for d
    using that cap k by blast
  have step: "decompress_task ev mem infos (block_pointers (8 + 24 * unat n) infos) (word_of_nat k) st
                = Inr st1"
    using src fits inside Cons.prems(3)
    by (auto simp: decompress_task_eq[OF k n] st1_def split: option.splits)
  have l1: "length (decompressed_data st1) = ?T"
    using fits inside Cons.prems(3)
    by (auto simp: st1_def length_write_bytes split: option.splits)
  have reg: "output_region infos j (decompressed_data st1) =
               (if j = k
                then (case block_decoded ev mem infos k of
                        None \<Rightarrow> output_region infos k ?data
                      | Some d \<Rightarrow> d @ drop (length d) (output_region infos k ?data))
                else output_region infos j ?data)" if j: "j < unat n" for j
  proof (cases "block_decoded ev mem infos k")
    case None
    then show ?thesis by (simp add: st1_def)
  next
    case (Some d)
    note f = fits[OF Some]
    from f inside Cons.prems(3) have w: "output_offset infos k + length d \<le> length ?data"
      by simp
    consider "j < k" | "j = k" | "k < j" by arith
    then show ?thesis
    proof cases
      case 1
      then have "output_offset infos j + unat (originalSize (infos ! j)) \<le> output_offset infos k"
        using kl by (intro regions_ordered[OF total]) simp_all
      then show ?thesis
        using 1 w by (simp add: st1_def Some output_region_def region_write_before)
    next
      case 2
      from inside Cons.prems(3)
      have "output_offset infos k + unat (originalSize (infos ! k)) \<le> length ?data"
        by simp
      then show ?thesis
        using 2 f by (simp add: st1_def Some output_region_def region_write_same)
    next
      case 3
      then have "output_offset infos k + unat (originalSize (infos ! k)) \<le> output_offset infos j"
        using j n by (intro regions_ordered[OF total]) simp_all
      with f have "output_offset infos k + length d \<le> output_offset infos j"
        by simp
      then show ?thesis
        using 3 w by (simp add: st1_def Some output_region_def region_write_after)
    qed
  qed
  have flag1: "decompressionSuccess st1 = (decompressionSuccess st \<and> block_decoded ev mem infos k \<noteq> None)"
    by (simp add: st1_def split: option.splits)
  from Cons.IH[OF dks ks l1] obtain st' where
    r: "taskloop (decompress_task ev mem infos (block_pointers (8 + 24 * unat n) infos)) ks st1 = Inr st'"
    and a: "length (decompressed_data st') = ?T"
    and b: "\<forall>j<unat n. output_region infos j (decompressed_data st') =
                 (if j \<in> set ks
                  then (case block_decoded ev mem infos j of
                          None \<Rightarrow> output_region infos j (decompressed_data st1)
                        | Some d \<Rightarrow> d @ drop (length d) (output_region infos j (decompressed_data st1)))
                  else output_region infos j (decompressed_data st1))"
    and c: "decompressionSuccess st' =
                (decompressionSuccess st1 \<and> (\<forall>k\<in>set ks. block_decoded ev mem infos k \<noteq> None))"
    by blast
  have b': "\<forall>j<unat n. output_region infos j (decompressed_data st') =
                 (if j \<in> set (k # ks)
                  then (case block_decoded ev mem infos j of
                          None \<Rightarrow> output_region infos j ?data
                        | Some d \<Rightarrow> d @ drop (length d) (output_region infos j ?data))
                  else output_region infos j ?data)"
    using b reg nk by (auto split: option.splits)
  have c': "decompressionSuccess st' =
                (decompressionSuccess st \<and> (\<forall>k\<in>set (k # ks). block_decoded ev mem infos k \<noteq> None))"
    using c flag1 by auto
  show ?case
    using step r a b' c' by simp
qed

lemma length_read_blockInfos:
  "read_blockInfos mem p m = Some infos \<Longrightarrow> length infos = m"
  by (induction m arbitrary: p infos) (auto split: option.splits)

lemma zero_region:
  assumes "(\<Sum>b\<leftarrow>infos. unat (originalSize b)) < 2 ^ 64" "j < length infos"
  shows "output_region infos j (replicate (\<Sum>b\<leftarrow>infos. unat (originalSize b)) 0)
           = replicate (unat (originalSize (infos ! j))) 0"
  using region_inside[OF assms] by (simp add: output_region_def min_def)

lemma decompress_result:
  assumes hdr: "read_bytes mem 0 8 = Some header"
    and tbl: "read_blockInfos mem 8 (unat (decode_size_t header)) = Some infos"
    and name: "output_name cfg fname = Inr outfile"
    and alloc: "allocate_ok ev outfile (sum_originalSize infos)"
    and perm: "mset (taskloop_order ev (length infos)) = mset [0..<length infos]"
    and total: "(\<Sum>b\<leftarrow>infos. unat (originalSize b)) < 2 ^ 64"
    and cap: "\<forall>k<length infos. \<forall>d. block_decoded ev mem infos k = Some d
                \<longrightarrow> length d \<le> unat (originalSize (infos ! k))"
    and src: "\<forall>k<length infos. payload_source mem infos k \<noteq> None"
  shows "\<exists>data. decompressDataParallel cfg ev mem fname =
            Inr \<lparr>returned = (\<forall>k<length infos. block_decoded ev mem infos k \<noteq> None),
                 written = Some (outfile, data),
                 unlinked = (if (\<forall>k<length infos. block_decoded ev mem infos k \<noteq> None)
                                \<and> REMOVE_ORIGIN cfg then Some fname else None)\<rparr>
          \<and> length data = (\<Sum>b\<leftarrow>infos. unat (originalSize b))
          \<and> (\<forall>j<length infos. output_region infos j data =
                (case block_decoded ev mem infos j of
                   None \<Rightarrow> replicate (unat (originalSize (infos ! j))) 0
                 | Some d \<Rightarrow> d @ replicate (unat (originalSize (infos ! j)) - length d) 0))"
proof -
  define n where "n = decode_size_t header"
  let ?T = "(\<Sum>b\<leftarrow>infos. unat (originalSize b))"
  have n: "length infos = unat n"
    using length_read_blockInfos[OF tbl] by (simp add: n_def)
  have T: "unat (sum_originalSize infos) = ?T"
    by (rule unat_sum_originalSize[OF total])
  show ?thesis
  proof (cases "n = 1")
    case True
    from tbl True obtain bs where bs: "read_bytes mem 8 24 = Some bs"
      and infos: "infos = [decode_DataBlock bs]"
      by (auto simp: n_def split: option.splits)
    define b where "b = decode_DataBlock bs"
    have sum: "sum_originalSize infos = originalSize b"
      by (simp add: infos b_def sum_originalSize_def)
    have ps: "payload_source mem infos 0 = read_bytes mem 32 (unat (compressedSize b))"
      by (simp add: payload_source_def infos b_def)
    from src obtain s where s: "read_bytes mem 32 (unat (compressedSize b)) = Some s"
      by (auto simp: infos ps[unfolded infos])
    have bd: "block_decoded ev mem infos 0 = uncompress ev s (originalSize b)"
      by (simp add: block_decoded_def ps s) (simp add: infos b_def)
    have all: "(\<forall>k<length infos. P k) = P 0" for P
      by (simp add: infos)
    have off: "output_offset infos 0 = 0"
      by (simp add: output_offset_def sum_originalSize_def)
    have TT: "?T = unat (originalSize b)"
      by (simp add: infos b_def)
    show ?thesis
    proof (cases "uncompress ev s (originalSize b)")
      case None
      have "decompressDataParallel cfg ev mem fname =
              Inr \<lparr>returned = False,
                   written = Some (outfile, replicate (unat (originalSize b)) 0),
                   unlinked = None\<rparr>"
        using True alloc
        by (simp add: decompressDataParallel_def hdr n_def[symmetric] bs b_def[symmetric] name
            sum decompressBlock_def s None Let_def)
      then show ?thesis
        by (simp add: all bd None TT output_region_def off) (simp add: infos b_def)
    next
      case (Some d)
      from cap bd Some have d: "length d \<le> unat (originalSize b)"
        by (simp add: infos b_def)
      have "decompressDataParallel cfg ev mem fname =
              Inr \<lparr>returned = True,
                   written = Some (outfile, write_bytes (replicate (unat (originalSize b)) 0) 0 d),
                   unlinked = (if REMOVE_ORIGIN cfg then Some fname else None)\<rparr>"
        using True alloc d
        by (simp add: decompressDataParallel_def hdr n_def[symmetric] bs b_def[symmetric] name
            sum decompressBlock_def s Some Let_def)
      moreover have "write_bytes (replicate (unat (originalSize b)) 0) 0 d
                       = d @ replicate (unat (originalSize b) - length d) 0"
        by (simp add: write_bytes_def)
      ultimately show ?thesis
        using d by (simp add: all bd Some TT output_region_def off) (simp add: infos b_def)
    qed
  next
    case False
    define st0 where "st0 = \<lparr>decompressed_data = replicate (unat (sum_originalSize infos)) 0,
                              decompressionSuccess = True\<rparr>"
    define ks where "ks = taskloop_order ev (unat n)"
    have unfold: "decompressDataParallel cfg ev mem fname =
       (case taskloop (decompress_task ev mem infos (block_pointers (8 + 24 * unat n) infos)) ks st0 of
          Inl f \<Rightarrow> Inl f
        | Inr st \<Rightarrow>
            if \<not> decompressionSuccess st then
              Inr \<lparr>returned = False, written = Some (outfile, decompressed_data st), unlinked = None\<rparr>
            else
              Inr \<lparr>returned = True, written = Some (outfile, decompressed_data st),
                   unlinked = (if REMOVE_ORIGIN cfg then Some fname else None)\<rparr>)"
      using False alloc
      by (simp add: decompressDataParallel_def hdr n_def[symmetric] tbl[folded n_def] name Let_def
          st0_def ks_def)
    have d: "distinct ks" and s: "set ks = {0..<unat n}"
      using perm_upt[OF perm] by (simp_all add: ks_def n)
    have kss: "\<forall>k\<in>set ks. k < unat n \<and> payload_source mem infos k \<noteq> None"
      using s src n by auto
    have l0: "length (decompressed_data st0) = ?T"
      by (simp add: st0_def T)
    from taskloop_decompress_run[OF n total cap[unfolded n] d kss l0] obtain st where
      r: "taskloop (decompress_task ev mem infos (block_pointers (8 + 24 * unat n) infos)) ks st0 = Inr st"
      and a: "length (decompressed_data st) = ?T"
      and b: "\<forall>j<unat n. output_region infos j (decompressed_data st) =
                 (if j \<in> set ks
                  then (case block_decoded ev mem infos j of
                          None \<Rightarrow> output_region infos j (decompressed_data st0)
                        | Some d \<Rightarrow> d @ drop (length d) (output_region infos j (decompressed_data st0)))
                  else output_region infos j (decompressed_data st0))"
      and c: "decompressionSuccess st =
                (decompressionSuccess st0 \<and> (\<forall>k\<in>set ks. block_decoded ev mem infos k \<noteq> None))"
      by blast
    have c': "decompressionSuccess st = (\<forall>k<length infos. block_decoded ev mem infos k \<noteq> None)"
      using c s n by (auto simp: st0_def)
    have z: "output_region infos j (decompressed_data st0) = replicate (unat (originalSize (infos ! j))) 0"
      if "j < length infos" for j
      using zero_region[OF total that] by (simp add: st0_def T)
    have b': "\<forall>j<length infos. output_region infos j (decompressed_data st) =
                (case block_decoded ev mem infos j of
                   None \<Rightarrow> replicate (unat (originalSize (infos ! j))) 0
                 | Some d \<Rightarrow> d @ replicate (unat (originalSize (infos ! j)) - length d) 0)"
      using b s n z by (auto split: option.splits)
    show ?thesis
    proof (cases "decompressionSuccess st")
      case True
      with c' a b' show ?thesis
        by (intro exI[of _ "decompressed_data st"]) (simp add: unfold r)
    next
      case False
      with c' a b' show ?thesis
        by (intro exI[of _ "decompressed_data st"]) (simp add: unfold r)
    qed
  qed
qed

lemma length_block_pointers: "length (block_pointers p infos) = length infos"
  by (induction infos arbitrary: p) simp_all

lemma block_pointers_nth:
  "k < length infos \<Longrightarrow>
   block_pointers p infos ! k = p + (\<Sum>b\<leftarrow>take k infos. unat (compressedSize b))"
proof (induction infos arbitrary: p k)
  case Nil
  then show ?case by simp
next
  case (Cons b infos)
  show ?case
  proof (cases k)
    case 0
    then show ?thesis by simp
  next
    case (Suc j)
    with Cons.prems have "j < length infos" by simp
    from Cons.IH[OF this, of "p + unat (compressedSize b)"] Suc show ?thesis
      by simp
  qed
qed

lemma concat_nth_slice:
  "k < length xs \<Longrightarrow>
   take (length (xs ! k)) (drop (\<Sum>x\<leftarrow>take k xs. length x) (concat xs)) = xs ! k"
proof (induction xs arbitrary: k)
  case Nil
  then show ?case by simp
next
  case (Cons x xs)
  show ?case
  proof (cases k)
    case 0
    then show ?thesis by simp
  next
    case (Suc j)
    with Cons.prems have "j < length xs" by simp
    from Cons.IH[OF this] Suc show ?thesis
      by simp
  qed
qed

lemma concat_slice_inside:
  "k < length xs \<Longrightarrow> (\<Sum>x\<leftarrow>take k xs. length x) + length (xs ! k) \<le> length (concat xs)"
proof (induction xs arbitrary: k)
  case Nil
  then show ?case by simp
next
  case (Cons x xs)
  show ?case
  proof (cases k)
    case 0
    then show ?thesis by simp
  next
    case (Suc j)
    with Cons.prems have "j < length xs" by simp
    from Cons.IH[OF this] Suc show ?thesis
      by simp
  qed
qed

lemma tiles_equal:
  fixes ss :: "nat list"
  assumes "length x = sum_list ss" "length y = sum_list ss"
    and "\<forall>k<length ss. take (ss ! k) (drop (sum_list (take k ss)) x)
                        = take (ss ! k) (drop (sum_list (take k ss)) y)"
  shows "x = y"
  using assms
proof (induction ss arbitrary: x y)
  case Nil
  then show ?case by simp
next
  case (Cons s ss)
  from Cons.prems(3) have "take ((s # ss) ! 0) (drop (sum_list (take 0 (s # ss))) x)
                           = take ((s # ss) ! 0) (drop (sum_list (take 0 (s # ss))) y)"
    by blast
  then have h: "take s x = take s y" by simp
  have r: "\<forall>k<length ss. take (ss ! k) (drop (sum_list (take k ss)) (drop s x))
                        = take (ss ! k) (drop (sum_list (take k ss)) (drop s y))"
  proof (intro allI impI)
    fix k assume "k < length ss"
    then have "Suc k < length (s # ss)" by simp
    with Cons.prems(3)
    have "take ((s # ss) ! Suc k) (drop (sum_list (take (Suc k) (s # ss))) x)
            = take ((s # ss) ! Suc k) (drop (sum_list (take (Suc k) (s # ss))) y)"
      by blast
    then show "take (ss ! k) (drop (sum_list (take k ss)) (drop s x))
                 = take (ss ! k) (drop (sum_list (take k ss)) (drop s y))"
      by (simp add: add.commute)
  qed
  have "drop s x = drop s y"
    using Cons.prems(1,2) by (intro Cons.IH[OF _ _ r]) simp_all
  with h show ?case
    by (metis append_take_drop_id)
qed

text \<open>
  C7. Let the archive's header and descriptor table be readable, every payload lie in
  the archive, the output file be allocated, the original sizes add up without
  overflow and the codec never report more bytes than it was given room for. If some
  block fails to decompress, the call returns \<^verbatim>\<open>false\<close>; the output file exists with the
  total original size as its length and is not removed, nor is the archive; and every
  block that decompresses is found in the file at its offset, whatever the order of the
  tasks: no task is skipped because another one failed.
\<close>

theorem failed_block_leaves_sized_output:
  assumes "read_bytes mem 0 8 = Some header"
    and "read_blockInfos mem 8 (unat (decode_size_t header)) = Some infos"
    and "output_name cfg fname = Inr outfile"
    and "allocate_ok ev outfile (sum_originalSize infos)"
    and "mset (taskloop_order ev (length infos)) = mset [0..<length infos]"
    and "(\<Sum>b\<leftarrow>infos. unat (originalSize b)) < 2 ^ 64"
    and "\<forall>src c d. uncompress ev src c = Some d \<longrightarrow> length d \<le> unat c"
    and "\<forall>k<length infos. payload_source mem infos k \<noteq> None"
    and "\<exists>k<length infos. block_decoded ev mem infos k = None"
  shows "\<exists>data. decompressDataParallel cfg ev mem fname
                  = Inr \<lparr>returned = False, written = Some (outfile, data), unlinked = None\<rparr>
             \<and> length data = unat (sum_originalSize infos)
             \<and> (\<forall>j<length infos. \<forall>d. block_decoded ev mem infos j = Some d
                    \<longrightarrow> take (length d) (drop (output_offset infos j) data) = d)"
proof -
  have fits: "\<forall>k<length infos. \<forall>d. block_decoded ev mem infos k = Some d
                \<longrightarrow> length d \<le> unat (originalSize (infos ! k))"
    using assms(7) by (auto simp: block_decoded_def split: option.splits)
  from decompress_result[OF assms(1-6) fits assms(8)] obtain data where
    r: "decompressDataParallel cfg ev mem fname =
            Inr \<lparr>returned = (\<forall>k<length infos. block_decoded ev mem infos k \<noteq> None),
                 written = Some (outfile, data),
                 unlinked = (if (\<forall>k<length infos. block_decoded ev mem infos k \<noteq> None)
                                \<and> REMOVE_ORIGIN cfg then Some fname else None)\<rparr>"
    and l: "length data = (\<Sum>b\<leftarrow>infos. unat (originalSize b))"
    and g: "\<forall>j<length infos. output_region infos j data =
                (case block_decoded ev mem infos j of
                   None \<Rightarrow> replicate (unat (originalSize (infos ! j))) 0
                 | Some d \<Rightarrow> d @ replicate (unat (originalSize (infos ! j)) - length d) 0)"
    by blast
  from assms(9) have f: "\<not> (\<forall>k<length infos. block_decoded ev mem infos k \<noteq> None)"
    by blast
  have r': "decompressDataParallel cfg ev mem fname
              = Inr \<lparr>returned = False, written = Some (outfile, data), unlinked = None\<rparr>"
    unfolding r using f by simp
  have l': "length data = unat (sum_originalSize infos)"
    using l unat_sum_originalSize[OF assms(6)] by simp
  have s: "take (length d) (drop (output_offset infos j) data) = d"
    if j: "j < length infos" and d: "block_decoded ev mem infos j = Some d" for j d
  proof -
    from assms(7) d have fits: "length d \<le> unat (originalSize (infos ! j))"
      by (auto simp: block_decoded_def split: option.splits)
    from g j d have "output_region infos j data
                       = d @ replicate (unat (originalSize (infos ! j)) - length d) 0"
      by simp
    then have "take (length d) (output_region infos j data) = d"
      by simp
    then show ?thesis
      using fits by (simp add: output_region_def min_def)
  qed
  from r' l' s show ?thesis by blast
qed

lemma broken_table: "read_blockInfos broken_archive 8 2 = Some broken_infos"
  by code_simp

theorem failed_block_leaves_sized_output_witness:
  "block_decoded (stored_env 4 (\<lambda>n. rev [0..<n])) broken_archive broken_infos 0 = None
   \<and> block_decoded (stored_env 4 (\<lambda>n. rev [0..<n])) broken_archive broken_infos 1 = Some [9, 10]
   \<and> (\<exists>data. decompressDataParallel (sample_config 4) (stored_env 4 (\<lambda>n. rev [0..<n]))
                 broken_archive ''f.zip''
               = Inr \<lparr>returned = False, written = Some (''f'', data), unlinked = None\<rparr>
            \<and> length data = 3
            \<and> take 2 (drop 1 data) = [9, 10])"
proof -
  let ?ev = "stored_env 4 (\<lambda>n. rev [0..<n])"
  have h: "read_bytes broken_archive 0 8 = Some [2, 0, 0, 0, 0, 0, 0, 0]"
    by code_simp
  have n: "unat (decode_size_t [2, 0, 0, 0, 0, 0, 0, 0]) = 2"
    by code_simp
  have t: "read_blockInfos broken_archive 8 (unat (decode_size_t [2, 0, 0, 0, 0, 0, 0, 0])) = Some broken_infos"
    by (simp only: n broken_table)
  have o: "output_name (sample_config 4) ''f.zip'' = Inr ''f''"
    by (simp add: output_name_def substr_def sample_config_def)
  have a: "allocate_ok ?ev ''f'' (sum_originalSize broken_infos)"
    by (simp add: stored_env_def)
  have p: "mset (taskloop_order ?ev (length broken_infos)) = mset [0..<length broken_infos]"
    by (simp add: stored_env_def)
  have s: "(\<Sum>b\<leftarrow>broken_infos. unat (originalSize b)) < 2 ^ 64"
    by (simp add: broken_infos_def)
  have c: "\<forall>src c d. uncompress ?ev src c = Some d \<longrightarrow> length d \<le> unat c"
    by (simp add: stored_env_def)
  have l: "length broken_infos = 2"
    by (simp add: broken_infos_def)
  have "\<forall>k\<in>set [0..<2]. payload_source broken_archive broken_infos k \<noteq> None"
    by code_simp
  then have src: "\<forall>k<length broken_infos. payload_source broken_archive broken_infos k \<noteq> None"
    by (simp add: l)
  have b0: "block_decoded ?ev broken_archive broken_infos 0 = None"
    by code_simp
  have b1: "block_decoded ?ev broken_archive broken_infos 1 = Some [9, 10]"
    by code_simp
  from b0 have f: "\<exists>k<length broken_infos. block_decoded ?ev broken_archive broken_infos k = None"
    by (auto simp: l intro: exI[of _ 0])
  have t3: "unat (sum_originalSize broken_infos) = 3"
    by code_simp
  have o1: "output_offset broken_infos 1 = 1"
    by code_simp
  from failed_block_leaves_sized_output[OF h t o a p s c src f] obtain data where
    r: "decompressDataParallel (sample_config 4) ?ev broken_archive ''f.zip''
          = Inr \<lparr>returned = False, written = Some (''f'', data), unlinked = None\<rparr>"
    and len: "length data = unat (sum_originalSize broken_infos)"
    and sib: "\<forall>j<length broken_infos. \<forall>d. block_decoded ?ev broken_archive broken_infos j = Some d
                    \<longrightarrow> take (length d) (drop (output_offset broken_infos j) data) = d"
    by blast
  from sib l have "\<forall>d. block_decoded ?ev broken_archive broken_infos 1 = Some d
                    \<longrightarrow> take (length d) (drop (output_offset broken_infos 1) data) = d"
    by simp
  with b1 have "take (length [9, 10 :: byte]) (drop (output_offset broken_infos 1) data) = [9, 10]"
    by blast
  then have "take 2 (drop 1 data) = [9, 10]"
    by (simp only: o1 list.size length_Cons) (simp add: numeral_2_eq_2)
  with r len t3 b0 b1 show ?thesis
    by auto
qed

section \<open>Round trip\<close>

lemma length_concat_descriptors:
  "length (concat (map encode_DataBlock infos)) = 24 * length infos"
  by (induction infos) (simp_all add: length_encode_DataBlock)

lemma read_bytes_Some:
  "read_bytes mem p n = Some bs \<Longrightarrow> bs = take n (drop p mem) \<and> p + n \<le> length mem \<and> length bs = n"
  by (auto simp: read_bytes_def split: if_splits)

lemma inner_sizes_sum:
  assumes "n \<noteq> 0" "k < unat n"
  shows "sum_list (take k (map (\<lambda>j. unat (currentBlockSize sz n bs (word_of_nat j))) [0..<unat n]))
           = k * unat bs"
proof -
  have "take k (map (\<lambda>j. unat (currentBlockSize sz n bs (word_of_nat j))) [0..<unat n])
          = map (\<lambda>j. unat (currentBlockSize sz n bs (word_of_nat j))) [0..<k]"
    using assms(2) by (simp add: take_map)
  also have "\<dots> = map (\<lambda>j. unat bs) [0..<k]"
    using assms by (intro map_cong) (simp_all add: currentBlockSize_inner)
  finally show ?thesis
    by (simp add: sum_list_triv)
qed

lemma read_bytes_append: "read_bytes (a @ b) (length a + p) n = read_bytes b p n"
  by (simp add: read_bytes_def)

lemma payload_in_archive:
  assumes "length infos = length payloads"
    and "\<forall>i<length infos. unat (compressedSize (infos ! i)) = length (payloads ! i)"
    and "length pre = 8"
    and "k < length infos"
  shows "payload_source (pre @ concat (map encode_DataBlock infos) @ concat payloads) infos k
           = Some (payloads ! k)"
proof -
  have m: "map (\<lambda>b. unat (compressedSize b)) infos = map length payloads"
    using assms(1,2) by (auto intro: nth_equalityI)
  have "(\<Sum>b\<leftarrow>take k infos. unat (compressedSize b)) = (\<Sum>x\<leftarrow>take k payloads. length x)"
    using arg_cong[OF m, of "\<lambda>xs. sum_list (take k xs)"] by (simp add: take_map)
  then have p: "block_pointers (8 + 24 * length infos) infos ! k
             = length (pre @ concat (map encode_DataBlock infos)) + (\<Sum>x\<leftarrow>take k payloads. length x)"
    using assms(3,4) by (simp add: block_pointers_nth length_concat_descriptors)
  have k: "k < length payloads"
    using assms(1,4) by simp
  have inside: "(\<Sum>x\<leftarrow>take k payloads. length x) + length (payloads ! k) \<le> length (concat payloads)"
    by (rule concat_slice_inside[OF k])
  have "read_bytes (concat payloads) (\<Sum>x\<leftarrow>take k payloads. length x) (length (payloads ! k))
          = Some (payloads ! k)"
    using inside concat_nth_slice[OF k] by (simp add: read_bytes_def)
  then have "read_bytes ((pre @ concat (map encode_DataBlock infos)) @ concat payloads)
          (length (pre @ concat (map encode_DataBlock infos)) + (\<Sum>x\<leftarrow>take k payloads. length x))
          (length (payloads ! k)) = Some (payloads ! k)"
    by (simp only: read_bytes_append)
  then show ?thesis
    using assms(2,4) by (simp add: payload_source_def p)
qed


text \<open>
  Round trip. Whenever \<^verbatim>\<open>compressDataParallel\<close> writes an archive, with a codec whose
  \<^verbatim>\<open>uncompress\<close> inverts its \<^verbatim>\<open>compress\<close> and that stays within the output buffer,
  \<^verbatim>\<open>decompressDataParallel\<close> on that archive and its name writes the input buffer back
  under the input's name, in single-block and in multi-block mode and for every order of
  the tasks.
\<close>

theorem written_archive_decompresses_to_input:
  assumes c: "compressDataParallel cfg ev ptr sz fname = Inr eff"
    and w: "written eff = Some (outfile, bytes)"
    and perm: "mset (taskloop_order ev (unat (archive_numBlocks cfg ev sz)))
                 = mset [0..<unat (archive_numBlocks cfg ev sz)]"
    and len: "length ptr = unat sz"
    and codec: "\<forall>src cap out. compress ev src cap = Some out
                  \<longrightarrow> length out \<le> unat cap \<and> uncompress ev out (word_of_nat (length src)) = Some src"
    and alloc: "allocate_ok ev fname sz"
    and names: "length fname + length (SUFFIX cfg) < 2 ^ 64"
  shows "decompressDataParallel cfg ev bytes outfile
           = Inr \<lparr>returned = True, written = Some (fname, ptr),
                  unlinked = (if REMOVE_ORIGIN cfg then Some outfile else None)\<rparr>"
proof -
  define n where "n = archive_numBlocks cfg ev sz"
  define bs where "bs = archive_blockSize cfg ev sz"
  define cur where "cur k = currentBlockSize sz n bs (word_of_nat k)" for k
  define infos where "infos = map (block_descriptor ev ptr sz n bs) [0..<unat n]"
  define payloads where "payloads = map (\<lambda>k. the (block_output ev ptr sz n bs k)) [0..<unat n]"
  define ss where "ss = map (\<lambda>b. unat (originalSize b)) infos"
  have li: "length infos = unat n" and lp: "length payloads = unat n"
    by (simp_all add: infos_def payloads_def)
  have n0: "n \<noteq> 0"
    using written_archive_header(2)[OF c w] by (simp add: n_def archive_numBlocks_nonzero)
  have out_name: "outfile = fname @ SUFFIX cfg"
    by (rule written_archive_header(3)[OF c w])
  have srcs: "\<forall>k<unat n. block_source ptr sz n bs k \<noteq> None"
    using written_expected(2)[OF c w perm] by (simp add: n_def bs_def)
  have outs: "\<forall>k<unat n. block_output ev ptr sz n bs k \<noteq> None"
    using written_expected(3)[OF c w perm] by (simp add: n_def bs_def)
  have off: "unat (block_offset bs (word_of_nat k)) = k * unat bs" if "k < unat n" for k
    by (rule block_offset_exact[OF n0 srcs len that])
  have block: "\<exists>src out. block_source ptr sz n bs k = Some src
                 \<and> src = take (unat (cur k)) (drop (k * unat bs) ptr)
                 \<and> length src = unat (cur k)
                 \<and> block_output ev ptr sz n bs k = Some out
                 \<and> payloads ! k = out
                 \<and> length out < 2 ^ 64
                 \<and> uncompress ev out (cur k) = Some src" if k: "k < unat n" for k
  proof -
    from srcs k obtain src where s: "block_source ptr sz n bs k = Some src"
      by auto
    note rb = read_bytes_Some[OF s[unfolded block_source_def]]
    have s1: "src = take (unat (cur k)) (drop (k * unat bs) ptr)"
      using rb[THEN conjunct1] by (simp only: cur_def off[OF k])
    have s2: "length src = unat (cur k)"
      using rb[THEN conjunct2, THEN conjunct2] by (simp only: cur_def)
    from outs k obtain out where o: "block_output ev ptr sz n bs k = Some out"
      by auto
    then have cmp: "compress ev src (compressBound ev (cur k)) = Some out"
      by (simp add: block_output_def s cur_def)
    from codec cmp have o1: "length out \<le> unat (compressBound ev (cur k))"
      and o2: "uncompress ev out (word_of_nat (length src)) = Some src"
      by blast+
    from o1 have o3: "length out < 2 ^ 64"
      using unat_size_t_less[of "compressBound ev (cur k)"] by simp
    from o2 have o4: "uncompress ev out (cur k) = Some src"
      by (simp add: s2)
    have "payloads ! k = out"
      using k o by (simp add: payloads_def)
    with s s1 s2 o o3 o4 show ?thesis by blast
  qed
  have desc: "originalSize (infos ! k) = cur k" "unat (compressedSize (infos ! k)) = length (payloads ! k)"
    if k: "k < unat n" for k
  proof -
    from block[OF k] obtain out where o: "block_output ev ptr sz n bs k = Some out"
      "payloads ! k = out" "length out < 2 ^ 64"
      by blast
    show "originalSize (infos ! k) = cur k"
      using k by (simp add: infos_def block_descriptor_def cur_def)
    show "unat (compressedSize (infos ! k)) = length (payloads ! k)"
      using k o by (simp add: infos_def block_descriptor_def unat_of_nat)
  qed
  have ss: "ss = map (\<lambda>k. unat (cur k)) [0..<unat n]"
    by (simp add: ss_def infos_def block_descriptor_def cur_def o_def)
  have total: "sum_list ss = unat sz"
    unfolding ss cur_def by (rule sum_originalSize_blocks[OF n0 srcs len])
  have total': "(\<Sum>b\<leftarrow>infos. unat (originalSize b)) = unat sz"
    using total by (simp add: ss_def)
  have small: "(\<Sum>b\<leftarrow>infos. unat (originalSize b)) < 2 ^ 64"
    unfolding total' by (rule unat_size_t_less)
  have sum: "sum_originalSize infos = sz"
    using unat_sum_originalSize[OF small] total' by (simp add: word_unat_eq_iff)
  have "bytes = archive_bytes n infos payloads"
    using written_expected(1)[OF c w perm]
    by (simp add: expected_archive_def Let_def infos_def payloads_def flip: n_def bs_def)
  also have "\<dots> = encode_size_t n @ concat (map encode_DataBlock infos) @ concat payloads"
    using li lp desc(2) by (intro archive_bytes_eq) simp_all
  finally have bytes: "bytes = encode_size_t n @ concat (map encode_DataBlock infos) @ concat payloads" .
  have hdr: "read_bytes bytes 0 8 = Some (encode_size_t n)"
    by (simp add: bytes read_bytes_def length_encode_size_t)
  have "read_blockInfos (encode_size_t n @ concat (map encode_DataBlock infos) @ concat payloads)
          (length (encode_size_t n)) (length infos) = Some infos"
    by (rule read_blockInfos_encoded)
  then have tbl: "read_blockInfos bytes 8 (unat (decode_size_t (encode_size_t n))) = Some infos"
    by (simp add: bytes length_encode_size_t li decode_encode_size_t)
  have name: "output_name cfg outfile = Inr fname"
    using names by (subst output_name_eq) (simp_all add: out_name)
  have alloc': "allocate_ok ev fname (sum_originalSize infos)"
    using alloc by (simp add: sum)
  have perm': "mset (taskloop_order ev (length infos)) = mset [0..<length infos]"
    using perm by (simp add: li n_def)
  have psrc: "payload_source bytes infos k = Some (payloads ! k)" if "k < length infos" for k
    unfolding bytes using li lp desc(2) that
    by (intro payload_in_archive) (simp_all add: length_encode_size_t)
  have dec: "block_decoded ev bytes infos k = Some (take (unat (cur k)) (drop (k * unat bs) ptr))"
    if k: "k < length infos" for k
  proof -
    from k li have k': "k < unat n" by simp
    from block[OF k'] desc(1)[OF k'] show ?thesis
      by (auto simp: block_decoded_def psrc[OF k])
  qed
  have fits: "\<forall>k<length infos. \<forall>d. block_decoded ev bytes infos k = Some d
                \<longrightarrow> length d \<le> unat (originalSize (infos ! k))"
  proof (intro allI impI)
    fix k d assume k: "k < length infos" and d: "block_decoded ev bytes infos k = Some d"
    from k li have k': "k < unat n" by simp
    from block[OF k'] dec[OF k] d desc(1)[OF k'] show "length d \<le> unat (originalSize (infos ! k))"
      by auto
  qed
  have srcs': "\<forall>k<length infos. payload_source bytes infos k \<noteq> None"
    using psrc by simp
  have all: "\<forall>k<length infos. block_decoded ev bytes infos k \<noteq> None"
    using dec by simp
  from decompress_result[OF hdr tbl name alloc' perm' small fits srcs'] all obtain data where
    r: "decompressDataParallel cfg ev bytes outfile =
            Inr \<lparr>returned = True, written = Some (fname, data),
                 unlinked = (if REMOVE_ORIGIN cfg then Some outfile else None)\<rparr>"
    and ld: "length data = (\<Sum>b\<leftarrow>infos. unat (originalSize b))"
    and g: "\<forall>j<length infos. output_region infos j data =
                (case block_decoded ev bytes infos j of
                   None \<Rightarrow> replicate (unat (originalSize (infos ! j))) 0
                 | Some d \<Rightarrow> d @ replicate (unat (originalSize (infos ! j)) - length d) 0)"
    by auto
  have "data = ptr"
  proof (rule tiles_equal[where ss = ss])
    show "length data = sum_list ss"
      using ld by (simp add: ss_def)
    show "length ptr = sum_list ss"
      using len total by simp
    show "\<forall>k<length ss. take (ss ! k) (drop (sum_list (take k ss)) data)
                          = take (ss ! k) (drop (sum_list (take k ss)) ptr)"
    proof (intro allI impI)
      fix k assume "k < length ss"
      then have k: "k < length infos" and k': "k < unat n"
        by (simp_all add: ss_def li)
      have ssk: "ss ! k = unat (cur k)"
        using k' by (simp add: ss)
      have pre: "sum_list (take k ss) = k * unat bs"
        unfolding ss cur_def by (rule inner_sizes_sum[OF n0 k'])
      have oo: "output_offset infos k = k * unat bs"
        using output_offset_nat[OF small, of k] pre by (simp add: ss_def)
      from block[OF k'] have lsrc: "length (take (unat (cur k)) (drop (k * unat bs) ptr)) = unat (cur k)"
        by auto
      from g k dec[OF k] desc(1)[OF k'] lsrc
      have "output_region infos k data = take (unat (cur k)) (drop (k * unat bs) ptr)"
        by simp
      then show "take (ss ! k) (drop (sum_list (take k ss)) data)
                   = take (ss ! k) (drop (sum_list (take k ss)) ptr)"
        by (simp add: output_region_def oo desc(1)[OF k'] ssk pre)
    qed
  qed
  with r show ?thesis by simp
qed

text \<open>
  With the plan defined, the last block starting inside the buffer, a codec that
  succeeds on the blocks and whose \<^verbatim>\<open>uncompress\<close> inverts its \<^verbatim>\<open>compress\<close>, and the two
  output files created, compression writes an archive and decompression of that archive
  writes the input back.
\<close>

theorem compress_then_decompress_restores_input:
  assumes perm: "mset (taskloop_order ev (unat (archive_numBlocks cfg ev sz)))
                 = mset [0..<unat (archive_numBlocks cfg ev sz)]"
    and len: "length ptr = unat sz"
    and pd: "plan_defined cfg ev sz"
    and last: "(unat (archive_numBlocks cfg ev sz) - 1) * unat (archive_blockSize cfg ev sz) \<le> unat sz"
    and codec: "\<forall>src cap out. compress ev src cap = Some out
                  \<longrightarrow> length out \<le> unat cap \<and> uncompress ev out (word_of_nat (length src)) = Some src"
    and total: "\<forall>src. length src \<le> unat sz
                  \<longrightarrow> compress ev src (compressBound ev (word_of_nat (length src))) \<noteq> None"
    and opens: "open_ok ev (fname @ SUFFIX cfg)"
    and alloc: "allocate_ok ev fname sz"
    and names: "length fname + length (SUFFIX cfg) < 2 ^ 64"
  shows "compressDataParallel cfg ev ptr sz fname
           = Inr \<lparr>returned = True,
                  written = Some (fname @ SUFFIX cfg, expected_archive cfg ev ptr sz),
                  unlinked = (if REMOVE_ORIGIN cfg then Some fname else None)\<rparr>
       \<and> decompressDataParallel cfg ev (expected_archive cfg ev ptr sz) (fname @ SUFFIX cfg)
           = Inr \<lparr>returned = True, written = Some (fname, ptr),
                  unlinked = (if REMOVE_ORIGIN cfg then Some (fname @ SUFFIX cfg) else None)\<rparr>"
proof -
  note c = compress_writes_archive[OF perm len pd last total opens]
  have w: "written \<lparr>returned = True,
                  written = Some (fname @ SUFFIX cfg, expected_archive cfg ev ptr sz),
                  unlinked = (if REMOVE_ORIGIN cfg then Some fname else None)\<rparr>
             = Some (fname @ SUFFIX cfg, expected_archive cfg ev ptr sz)"
    by simp
  from written_archive_decompresses_to_input[OF c w perm len codec alloc names] c
  show ?thesis by simp
qed

lemma stored_codec_inverts:
  "\<forall>src cap out. compress (stored_env p ord) src cap = Some out
      \<longrightarrow> length out \<le> unat cap \<and> uncompress (stored_env p ord) out (word_of_nat (length src)) = Some src"
proof (intro allI impI)
  fix src :: "byte list" and cap :: size_t and out
  assume "compress (stored_env p ord) src cap = Some out"
  then have o: "out = src" and l: "length src \<le> unat cap"
    by (auto simp: stored_env_def split: if_splits)
  from l unat_size_t_less[of cap] have "length src < 2 ^ 64"
    by simp
  then have "unat (word_of_nat (length src) :: size_t) = length src"
    by (simp add: unat_of_nat)
  with o l show "length out \<le> unat cap
                 \<and> uncompress (stored_env p ord) out (word_of_nat (length src)) = Some src"
    by (simp add: stored_env_def)
qed

lemma stored_codec_total:
  "\<forall>src. length src \<le> unat (sz::size_t)
      \<longrightarrow> compress (stored_env p ord) src (compressBound (stored_env p ord) (word_of_nat (length src)))
            \<noteq> None"
proof (intro allI impI)
  fix src :: "byte list"
  assume "length src \<le> unat sz"
  with unat_size_t_less[of sz] have "length src < 2 ^ 64"
    by simp
  then have "unat (word_of_nat (length src) :: size_t) = length src"
    by (simp add: unat_of_nat)
  then show "compress (stored_env p ord) src (compressBound (stored_env p ord) (word_of_nat (length src)))
               \<noteq> None"
    by (simp add: stored_env_def)
qed

theorem compress_then_decompress_restores_input_witness:
  "plan_defined (sample_config 4) (stored_env 4 (\<lambda>n. rev [0..<n])) 10
   \<and> length ten_bytes = unat (10 :: size_t)
   \<and> compressDataParallel (sample_config 4) (stored_env 4 (\<lambda>n. rev [0..<n])) ten_bytes 10 ''f''
       = Inr \<lparr>returned = True, written = Some (''f.zip'', sample_archive), unlinked = None\<rparr>
   \<and> decompressDataParallel (sample_config 4) (stored_env 4 (\<lambda>n. rev [0..<n])) sample_archive ''f.zip''
       = Inr \<lparr>returned = True, written = Some (''f'', ten_bytes), unlinked = None\<rparr>"
proof -
  let ?ev = "stored_env 4 (\<lambda>n. rev [0..<n])" and ?cfg = "sample_config 4"
  have perm: "mset (taskloop_order ?ev (unat (archive_numBlocks ?cfg ?ev 10)))
                = mset [0..<unat (archive_numBlocks ?cfg ?ev 10)]"
    by (simp add: stored_env_def)
  have len: "length ten_bytes = unat (10 :: size_t)"
    by (simp add: ten_bytes_def)
  have pd: "plan_defined ?cfg ?ev 10"
    by code_simp
  have last: "(unat (archive_numBlocks ?cfg ?ev 10) - 1) * unat (archive_blockSize ?cfg ?ev 10)
                \<le> unat (10 :: size_t)"
    by code_simp
  have opens: "open_ok ?ev (''f'' @ SUFFIX ?cfg)" and alloc: "allocate_ok ?ev ''f'' 10"
    by (simp_all add: stored_env_def)
  have names: "length ''f'' + length (SUFFIX ?cfg) < 2 ^ 64"
    by (simp add: sample_config_def)
  have sfx: "''f'' @ SUFFIX ?cfg = ''f.zip''" and rm: "\<not> REMOVE_ORIGIN ?cfg"
    by (simp_all add: sample_config_def)
  from compress_then_decompress_restores_input
         [OF perm len pd last stored_codec_inverts stored_codec_total opens alloc names]
  have "compressDataParallel ?cfg ?ev ten_bytes 10 ''f''
           = Inr \<lparr>returned = True,
                  written = Some (''f.zip'', expected_archive ?cfg ?ev ten_bytes 10),
                  unlinked = None\<rparr>
       \<and> decompressDataParallel ?cfg ?ev (expected_archive ?cfg ?ev ten_bytes 10) ''f.zip''
           = Inr \<lparr>returned = True, written = Some (''f'', ten_bytes), unlinked = None\<rparr>"
    by (simp only: sfx rm if_False)
  moreover from this sample_compress have "expected_archive ?cfg ?ev ten_bytes 10 = sample_archive"
    by simp
  ultimately show ?thesis
    using pd len by simp
qed

text \<open>
  C1 fails on the code. For the ten bytes 1, ..., 10 with the threshold 1 and four
  threads, the split has 8 blocks of 2 bytes; block 5 starts at the end of the buffer
  and the last block behind it, so the codec is handed ranges outside the buffer and no
  archive is written, in whichever order the tasks run: there is nothing to decompress
  back to the input. (Where an archive is written, the round trip holds:
  \<open>written_archive_decompresses_to_input\<close>.)
\<close>

theorem no_archive_for_ten_bytes_with_threshold_one:
  "length ten_bytes = unat (10 :: size_t)
   \<and> archive_numBlocks (sample_config 1) (stored_env 4 (\<lambda>n. [0..<n])) 10 = 8
   \<and> archive_blockSize (sample_config 1) (stored_env 4 (\<lambda>n. [0..<n])) 10 = 2
   \<and> block_source ten_bytes 10 8 2 5 = None
   \<and> compressDataParallel (sample_config 1) (stored_env 4 (\<lambda>n. [0..<n])) ten_bytes 10 ''f''
       = Inl OutOfBounds
   \<and> compressDataParallel (sample_config 1) (stored_env 4 (\<lambda>n. rev [0..<n])) ten_bytes 10 ''f''
       = Inl OutOfBounds"
proof -
  let ?asc = "stored_env 4 (\<lambda>n. [0..<n])" and ?desc = "stored_env 4 (\<lambda>n. rev [0..<n])"
  have l: "length ten_bytes = unat (10 :: size_t)"
    by (simp add: ten_bytes_def)
  have n: "archive_numBlocks (sample_config 1) ?asc 10 = 8"
    by code_simp
  have b: "archive_blockSize (sample_config 1) ?asc 10 = 2"
    by code_simp
  have s: "block_source ten_bytes 10 8 2 5 = None"
    by code_simp
  have a: "compressDataParallel (sample_config 1) ?asc ten_bytes 10 ''f'' = Inl OutOfBounds"
    by code_simp
  have "mset (taskloop_order ?desc (unat (archive_numBlocks (sample_config 1) ?desc 10)))
          = mset [0..<unat (archive_numBlocks (sample_config 1) ?desc 10)]"
    by (simp add: stored_env_def)
  from compress_order_irrelevant[OF this, of ten_bytes "''f''"]
  have "compressDataParallel (sample_config 1) ?desc ten_bytes 10 ''f''
          = compressDataParallel (sample_config 1) (?desc\<lparr>taskloop_order := (\<lambda>n. [0..<n])\<rparr>) ten_bytes 10 ''f''"
    by simp
  also have "?desc\<lparr>taskloop_order := (\<lambda>n. [0..<n])\<rparr> = ?asc"
    by (simp add: stored_env_def)
  finally have d: "compressDataParallel (sample_config 1) ?desc ten_bytes 10 ''f'' = Inl OutOfBounds"
    using a by simp
  from l n b s a d show ?thesis by blast
qed

section \<open>The directory walker\<close>

lemma first_pass_append:
  "first_pass cfg work comp' (pre @ es) files st =
     (case first_pass cfg work comp' pre files st of
        (None, s) \<Rightarrow> (None, s)
      | (Some fs, s) \<Rightarrow> first_pass cfg work comp' es fs s)"
proof (induction pre arbitrary: files st)
  case Nil
  then show ?case by simp
next
  case (Cons e pre)
  show ?case
  proof (cases e)
    case (Reg d_name stat_ok st_size)
    then show ?thesis using Cons.IH by simp
  next
    case (Sub d_name stat_ok d)
    then show ?thesis using Cons.IH
      by (simp split: prod.splits bool.splits)
  qed
qed

lemma second_pass_state:
  "second_pass work comp' files success st = (r, st') \<Longrightarrow>
     cwd st' = cwd st
     \<and> dispatched st' = dispatched st @ map (\<lambda>(fname, sz). (cwd st, fname, sz)) files"
proof (induction files arbitrary: success st)
  case Nil
  then show ?case by simp
next
  case (Cons f files)
  obtain fname sz where f: "f = (fname, sz)" by (cases f)
  from Cons.prems have "second_pass work comp' files
       (if \<not> work (cwd st) fname sz comp' then False else success)
       (st\<lparr>dispatched := dispatched st @ [(cwd st, fname, sz)]\<rparr>) = (r, st')"
    by (simp add: f)
  from Cons.IH[OF this] show ?case by (simp add: f)
qed

lemma prefix_snoc_strict: "prefix (c @ [d]) x \<Longrightarrow> strict_prefix c x"
  by (auto simp: strict_prefix_def prefix_def)

lemma walk_invariants:
  "walkDirParallel cfg work comp' dname d st = (r, st') \<Longrightarrow>
     (r \<longrightarrow> cwd st' = cwd st @ [dname])
     \<and> (cwd st' = cwd st \<or> prefix (cwd st @ [dname]) (cwd st'))
     \<and> (\<exists>new. dispatched st' = dispatched st @ new
              \<and> (\<forall>e\<in>set new. prefix (cwd st @ [dname]) (fst e)))"
  "first_pass cfg work comp' es files st = (res, st'') \<Longrightarrow>
     (res \<noteq> None \<longrightarrow> cwd st'' = cwd st)
     \<and> prefix (cwd st) (cwd st'')
     \<and> (\<exists>new. dispatched st'' = dispatched st @ new
              \<and> (\<forall>e\<in>set new. strict_prefix (cwd st) (fst e)))"
proof (induction cfg work comp' dname d st and cfg work comp' es files st
    arbitrary: r st' and res st'' rule: walkDirParallel_first_pass.induct)
  case (1 cfg work comp' dname c_ok o_ok es r_ok up_ok st)
  show ?case
  proof (cases "c_ok \<and> o_ok")
    case False
    with "1.prems" show ?thesis
      by (auto simp: Let_def split: if_splits)
  next
    case True
    define st1 where "st1 = st\<lparr>cwd := cwd st @ [dname]\<rparr>"
    obtain res st2 where fp: "first_pass cfg work comp' es [] st1 = (res, st2)"
      by (cases "first_pass cfg work comp' es [] st1")
    from True have "\<not> \<not> c_ok" "\<not> \<not> o_ok" by simp_all
    from "1.IH"[OF this(1) st1_def this(2) fp]
    have i1: "res \<noteq> None \<longrightarrow> cwd st2 = cwd st1"
      and i2: "prefix (cwd st1) (cwd st2)"
      and i3: "\<exists>new. dispatched st2 = dispatched st1 @ new
              \<and> (\<forall>e\<in>set new. strict_prefix (cwd st1) (fst e))"
      by blast+
    from i3 obtain new where new: "dispatched st2 = dispatched st @ new"
      "\<forall>e\<in>set new. strict_prefix (cwd st @ [dname]) (fst e)"
      by (auto simp: st1_def)
    show ?thesis
    proof (cases "res \<noteq> None \<and> r_ok")
      case False
      with "1.prems" True fp have "r = False" "st' = st2"
        by (auto simp: Let_def st1_def[symmetric] split: option.splits if_splits)
      with i2 new show ?thesis
        by (auto simp: st1_def strict_prefix_def)
    next
      case ok: True
      then obtain files where res: "res = Some files" by auto
      with "1.prems" True fp ok have sp: "second_pass work comp' files True st2 = (r, st')"
        by (simp add: Let_def st1_def[symmetric])
      from second_pass_state[OF sp] i1 res
      have c: "cwd st' = cwd st @ [dname]"
        and dsp: "dispatched st' = dispatched st2 @ map (\<lambda>(fname, sz). (cwd st @ [dname], fname, sz)) files"
        by (simp_all add: st1_def)
      have "dispatched st' = dispatched st @ (new @ map (\<lambda>(fname, sz). (cwd st @ [dname], fname, sz)) files)"
        using dsp new(1) by simp
      moreover have "\<forall>e\<in>set (new @ map (\<lambda>(fname, sz). (cwd st @ [dname], fname, sz)) files).
                       prefix (cwd st @ [dname]) (fst e)"
        using new(2) by (auto simp: strict_prefix_def)
      ultimately have "\<exists>new. dispatched st' = dispatched st @ new
              \<and> (\<forall>e\<in>set new. prefix (cwd st @ [dname]) (fst e))"
        by (rule_tac x = "new @ map (\<lambda>(fname, sz). (cwd st @ [dname], fname, sz)) files" in exI) simp
      then show ?thesis
        using c by simp
    qed
  qed
next
  case (2 cfg work comp' files st)
  then show ?case by simp
next
  case (3 cfg work comp' d_name stat_ok st_size es files st)
  show ?case
  proof (cases stat_ok)
    case False
    with "3.prems" show ?thesis by simp
  next
    case True
    then have t: "\<not> \<not> stat_ok" by simp
    show ?thesis
    proof (cases "discardIt cfg d_name comp'")
      case d: True
      with "3.prems" True have "first_pass cfg work comp' es files st = (res, st'')" by simp
      from "3.IH"(1)[OF t d this] show ?thesis .
    next
      case d: False
      with "3.prems" True
      have "first_pass cfg work comp' es (files @ [(d_name, st_size)]) st = (res, st'')" by simp
      from "3.IH"(2)[OF t d this] show ?thesis .
    qed
  qed
next
  case (4 cfg work comp' d_name stat_ok d es files st)
  show ?case
  proof (cases stat_ok)
    case False
    with "4.prems" show ?thesis by simp
  next
    case True
    then have t: "\<not> \<not> stat_ok" by simp
    show ?thesis
    proof (cases "isdot d_name")
      case dot: True
      with "4.prems" True have "first_pass cfg work comp' es files st = (res, st'')" by simp
      from "4.IH"(1)[OF t dot this] show ?thesis .
    next
      case dot: False
      obtain r1 st1 where w: "walkDirParallel cfg work comp' d_name d st = (r1, st1)"
        by (cases "walkDirParallel cfg work comp' d_name d st")
      from "4.IH"(2)[OF t dot w]
      have w1: "r1 \<longrightarrow> cwd st1 = cwd st @ [d_name]"
        and w2: "cwd st1 = cwd st \<or> prefix (cwd st @ [d_name]) (cwd st1)"
        and w3: "\<exists>new. dispatched st1 = dispatched st @ new
              \<and> (\<forall>e\<in>set new. prefix (cwd st @ [d_name]) (fst e))"
        by blast+
      from w3 obtain new where new: "dispatched st1 = dispatched st @ new"
        "\<forall>e\<in>set new. strict_prefix (cwd st) (fst e)"
        by (blast intro: prefix_snoc_strict)
      from w2 have p1: "prefix (cwd st) (cwd st1)"
        by (auto simp: prefix_def)
      show ?thesis
      proof (cases "r1 \<and> chdir_up_ok d")
        case False
        with "4.prems" True dot w have "res = None" "st'' = st1"
          by (auto split: if_splits bool.splits)
        with p1 new show ?thesis by auto
      next
        case up: True
        define st2 where "st2 = st1\<lparr>cwd := butlast (cwd st1)\<rparr>"
        from up w1 have c2: "cwd st2 = cwd st" and d2: "dispatched st2 = dispatched st1"
          by (simp_all add: st2_def)
        from "4.prems" True dot w up
        have fp: "first_pass cfg work comp' es files st2 = (res, st'')"
          by (simp add: st2_def)
        from up have r1: "r1 = True" and u: "chdir_up_ok d" by simp_all
        from "4.IH"(3)[OF t dot w[symmetric] r1 u fp[unfolded st2_def]]
        have f1: "res \<noteq> None \<longrightarrow> cwd st'' = cwd st2"
          and f2: "prefix (cwd st2) (cwd st'')"
          and f3: "\<exists>new. dispatched st'' = dispatched st2 @ new
              \<and> (\<forall>e\<in>set new. strict_prefix (cwd st2) (fst e))"
          unfolding st2_def[symmetric] by blast+
        from f3 obtain new2 where new2: "dispatched st'' = dispatched st2 @ new2"
          "\<forall>e\<in>set new2. strict_prefix (cwd st) (fst e)"
          by (auto simp: c2)
        have "dispatched st'' = dispatched st @ (new @ new2)"
          using new2(1) d2 new(1) by simp
        moreover have "\<forall>e\<in>set (new @ new2). strict_prefix (cwd st) (fst e)"
          using new(2) new2(2) by auto
        ultimately have "\<exists>new. dispatched st'' = dispatched st @ new
              \<and> (\<forall>e\<in>set new. strict_prefix (cwd st) (fst e))"
          by (rule_tac x = "new @ new2" in exI) simp
        then show ?thesis
          using f1 f2 c2 by simp
      qed
    qed
  qed
qed


lemma walk_subdirectory_failure:
  assumes "first_pass cfg work comp' pre [] (st\<lparr>cwd := cwd st @ [dname]\<rparr>) = (Some files, st2)"
    and "\<not> isdot sub_name"
    and "walkDirParallel cfg work comp' sub_name sub st2 = (False, st3)"
  shows "walkDirParallel cfg work comp' dname
           (Directory True True (pre @ Sub sub_name True sub # post) r_ok up_ok) st = (False, st3)"
  using assms by (simp add: first_pass_append Let_def)

text \<open>
  C8. When the entries before a subdirectory have been read without a failure and the
  recursive call for that subdirectory returns \<^verbatim>\<open>false\<close>, the parent call returns \<^verbatim>\<open>false\<close>
  in the very state the recursive call left, and no call of \<^verbatim>\<open>doParallelWork\<close> made since
  the parent started was made in the parent's directory: the files the parent collected
  are not dispatched.
\<close>

theorem failed_subdirectory_skips_parent_files:
  assumes "first_pass cfg work comp' pre [] (st\<lparr>cwd := cwd st @ [dname]\<rparr>) = (Some files, st2)"
    and "\<not> isdot sub_name"
    and "walkDirParallel cfg work comp' sub_name sub st2 = (False, st3)"
  shows "walkDirParallel cfg work comp' dname
           (Directory True True (pre @ Sub sub_name True sub # post) r_ok up_ok) st = (False, st3)
       \<and> (\<exists>new. dispatched st3 = dispatched st @ new
                \<and> (\<forall>e\<in>set new. fst e \<noteq> cwd st @ [dname]))"
proof -
  from walk_invariants(2)[OF assms(1)]
  obtain new1 where c2: "cwd st2 = cwd st @ [dname]"
    and n1: "dispatched st2 = dispatched st @ new1"
      "\<forall>e\<in>set new1. strict_prefix (cwd st @ [dname]) (fst e)"
    by auto
  from walk_invariants(1)[OF assms(3)]
  obtain new2 where n2: "dispatched st3 = dispatched st2 @ new2"
      "\<forall>e\<in>set new2. prefix (cwd st2 @ [sub_name]) (fst e)"
    by auto
  have "\<forall>e\<in>set new2. strict_prefix (cwd st @ [dname]) (fst e)"
    using n2(2) unfolding c2 by (blast intro: prefix_snoc_strict)
  with n1(2) have "\<forall>e\<in>set (new1 @ new2). fst e \<noteq> cwd st @ [dname]"
    by (auto simp: strict_prefix_def)
  moreover have "dispatched st3 = dispatched st @ (new1 @ new2)"
    using n1(1) n2(1) by simp
  ultimately have "\<exists>new. dispatched st3 = dispatched st @ new
                \<and> (\<forall>e\<in>set new. fst e \<noteq> cwd st @ [dname])"
    by (rule_tac x = "new1 @ new2" in exI) simp
  then show ?thesis
    using walk_subdirectory_failure[OF assms] by simp
qed

lemma sample_first_pass:
  "first_pass cfg work comp' [Reg ''a'' True 3] [] (start_state\<lparr>cwd := cwd start_state @ [''d'']\<rparr>)
     = (Some (if discardIt cfg ''a'' comp' then [] else [(''a'', 3)]), \<lparr>cwd = [''d''], dispatched = []\<rparr>)"
  by (simp add: start_state_def)

lemma sample_sub_walk:
  "walkDirParallel cfg work comp' ''s'' unreadable_dir \<lparr>cwd = [''d''], dispatched = []\<rparr>
     = (False, \<lparr>cwd = [''d'', ''s''], dispatched = []\<rparr>)"
  by (simp add: unreadable_dir_def)

theorem failed_subdirectory_skips_parent_files_witness:
  "\<not> isdot ''s''
   \<and> walkDirParallel (sample_config 0) (\<lambda>_ _ _ _. True) True ''d'' sample_tree start_state
       = (False, \<lparr>cwd = [''d'', ''s''], dispatched = []\<rparr>)"
proof -
  have d: "\<not> isdot ''s''"
    by (simp add: isdot_def)
  note f = sample_first_pass[of "sample_config 0" "\<lambda>_ _ _ _. True" True]
  note s = sample_sub_walk[of "sample_config 0" "\<lambda>_ _ _ _. True" True]
  from failed_subdirectory_skips_parent_files[OF f d s, of "[Reg ''b'' True 1]" True True] d
  show ?thesis
    by (simp add: sample_tree_def)
qed

subsection \<open>The working directory after a walk\<close>









end
